theory Spec2Isabelle
  imports Main "HOL-Library.Word" "HOL-Library.Char_ord" "HOL-Library.List_Lexorder"
    "HOL-Library.AList" "HOL-Library.Multiset"
begin

unbundle bit_operations_syntax

section \<open>Bytes, panics and results\<close>

text \<open>
  A Go byte is a \<^typ>\<open>char\<close> (eight bits), so both \<open>[]byte\<close> and \<open>string\<close> are
  \<^typ>\<open>string\<close> and the conversions between them are the identity. Go's \<open>int\<close> counters
  (\<open>line\<close>, \<open>column\<close>, \<open>n\<close>) start at zero and only grow; they are natural numbers here
  (a buffer long enough to overflow them cannot exist).
\<close>

type_synonym bytes = string

datatype panic =
    SliceBoundsOutOfRange
  | IndexOutOfRange
  | NilDereference
  | FileSetReadError

type_synonym 'a result = "panic + 'a"

definition bnd :: "'a result \<Rightarrow> ('a \<Rightarrow> 'b result) \<Rightarrow> 'b result" where
  "bnd m k = (case m of Inl e \<Rightarrow> Inl e | Inr x \<Rightarrow> k x)"

definition sentinel :: char where
  "sentinel = CHR 0x08"

definition newline :: char where
  "newline = CHR 0x0A"

text \<open>\<open>bytes.IndexByte\<close>: the index of the first occurrence, \<open>None\<close> for Go's \<open>-1\<close>.\<close>

fun IndexByte :: "bytes \<Rightarrow> char \<Rightarrow> nat option" where
  "IndexByte [] c = None"
| "IndexByte (b # bs) c = (if b = c then Some 0 else map_option Suc (IndexByte bs c))"

text \<open>\<open>binary.BigEndian.Uint32\<close> on a four-byte slice.\<close>

fun Uint32 :: "bytes \<Rightarrow> 32 word" where
  "Uint32 [b0, b1, b2, b3] =
     (of_char b3 OR push_bit 8 (of_char b2) OR push_bit 16 (of_char b1) OR push_bit 24 (of_char b0))"
| "Uint32 bs = 0"

section \<open>SourceMapFilter\<close>

text \<open>
  The struct of compiler.go. \<open>Writer\<close> holds the state of the underlying \<open>io.Writer\<close>;
  its \<open>Write\<close> method is the parameter \<open>wr\<close> of the functions below and returns
  \<open>(n, err, state')\<close>. \<open>MappingCallback\<close> says whether the callback is non-nil, and \<open>calls\<close>
  records the arguments of its invocations, oldest first (the callback's own effect is
  opaque to compiler.go).
\<close>

record ('w, 'fs) SourceMapFilter =
  Writer :: 'w
  MappingCallback :: bool
  line :: nat
  column :: nat
  fileSet :: "'fs option"
  calls :: "(nat \<times> nat \<times> 'fs option \<times> 32 word) list"

type_synonym 'w writer = "'w \<Rightarrow> bytes \<Rightarrow> nat \<times> string option \<times> 'w"

lemma IndexByte_Some_less: "IndexByte p c = Some i \<Longrightarrow> i < length p"
  by (induction p arbitrary: i) (auto split: if_splits)

text \<open>
  The inner loop of \<open>Write\<close> (lines 391-400): every newline of \<open>w\<close> increments the line and
  resets the column, the bytes after the last newline are added to the column.
\<close>

function countLines :: "nat \<times> nat \<Rightarrow> bytes \<Rightarrow> nat \<times> nat" where
  "countLines (l, c) w =
     (case IndexByte w newline of
        None \<Rightarrow> (l, c + length w)
      | Some i \<Rightarrow> countLines (l + 1, 0) (drop (i + 1) w))"
  by pat_completeness auto
termination
  by (relation "measure (\<lambda>(lc, w). length w)") (auto dest: IndexByte_Some_less)

definition advance :: "('w, 'fs) SourceMapFilter \<Rightarrow> bytes \<Rightarrow> ('w, 'fs) SourceMapFilter" where
  "advance f w = (case countLines (line f, column f) w of (l, c) \<Rightarrow> f\<lparr>line := l, column := c\<rparr>)"

text \<open>
  \<open>SourceMapFilter.Write\<close> (lines 380-411). \<open>p\<close> is the slice's visible part and \<open>spare\<close>
  the bytes of its backing array between \<open>len(p)\<close> and \<open>cap(p)\<close>: Go checks the upper
  bound of \<open>p[i+1:i+5]\<close> against the capacity, and the lower bound of \<open>p[i+5:]\<close> against
  the length. \<open>n\<close> is the running count. The line and column advance over all of \<open>w\<close>
  whatever the writer returned; the loop returns on an error or when no sentinel is left.
\<close>

function WriteLoop ::
  "'w writer \<Rightarrow> ('w, 'fs) SourceMapFilter \<Rightarrow> bytes \<Rightarrow> bytes \<Rightarrow> nat \<Rightarrow>
     (nat \<times> string option \<times> ('w, 'fs) SourceMapFilter) result" where
  "WriteLoop wr f p spare n =
     (case IndexByte p sentinel of
        None \<Rightarrow>
          (case wr (Writer f) p of
             (n2, err, W) \<Rightarrow> Inr (n + n2, err, advance (f\<lparr>Writer := W\<rparr>) p))
      | Some i \<Rightarrow>
          (case wr (Writer f) (take i p) of
             (n2, err, W) \<Rightarrow>
               (let f1 = advance (f\<lparr>Writer := W\<rparr>) (take i p) in
                if err \<noteq> None then Inr (n + n2, err, f1)
                else if MappingCallback f1 \<and> length p + length spare < i + 5
                then Inl SliceBoundsOutOfRange
                else
                  (let f2 = (if MappingCallback f1
                             then f1\<lparr>calls := calls f1 @
                                    [(line f1 + 1, column f1, fileSet f1,
                                      Uint32 (take 4 (drop (i + 1) (p @ spare))))]\<rparr>
                             else f1)
                   in if length p < i + 5 then Inl SliceBoundsOutOfRange
                      else WriteLoop wr f2 (drop (i + 5) p) spare (n + n2 + 5)))))"
  by pat_completeness auto
termination
  by (relation "measure (\<lambda>(wr, f, p, spare, n). length p)") auto

definition Write ::
  "'w writer \<Rightarrow> ('w, 'fs) SourceMapFilter \<Rightarrow> bytes \<Rightarrow> bytes \<Rightarrow>
     (nat \<times> string option \<times> ('w, 'fs) SourceMapFilter) result" where
  "Write wr f p spare = WriteLoop wr f p spare 0"

text \<open>A writer that accepts every byte, as \<open>bytes.Buffer\<close> does: its state is what it holds.\<close>

definition bufferWrite :: "bytes writer" where
  "bufferWrite s w = (length w, None, s @ w)"

subsection \<open>The filter, byte by byte\<close>

text \<open>
  The description of the filter in the specification, as a second definition to compare
  \<open>Write\<close> with. \<open>cookiesComplete p\<close>: scanning from the left, every sentinel of \<open>p\<close> is followed
  by its four cookie bytes inside \<open>p\<close> (cookie bytes are skipped, whatever their value).
  \<open>scanSpec f p\<close> reads \<open>p\<close> one byte at a time: an ordinary byte is forwarded and advances the
  position, a sentinel consumes itself and the next four bytes and reports the cookie.
\<close>

function cookiesComplete :: "bytes \<Rightarrow> bool" where
  "cookiesComplete p =
     (case IndexByte p sentinel of
        None \<Rightarrow> True
      | Some i \<Rightarrow> if i + 5 \<le> length p then cookiesComplete (drop (i + 5) p) else False)"
  by pat_completeness auto
termination
  by (relation "measure length") auto

function scanSpec :: "(bytes, 'fs) SourceMapFilter \<Rightarrow> bytes \<Rightarrow> (bytes, 'fs) SourceMapFilter" where
  "scanSpec f [] = f"
| "scanSpec f (b # bs) =
     (if b = sentinel
      then scanSpec (if MappingCallback f
                 then f\<lparr>calls := calls f @ [(line f + 1, column f, fileSet f, Uint32 (take 4 bs))]\<rparr>
                 else f) (drop 4 bs)
      else scanSpec (f\<lparr>Writer := Writer f @ [b],
                   line := (if b = newline then line f + 1 else line f),
                   column := (if b = newline then 0 else column f + 1)\<rparr>) bs)"
  by pat_completeness auto
termination
  by (relation "measure (\<lambda>(f, p). length p)") auto

text \<open>
  The scenario of a buffer cut at byte \<open>k\<close> and handed over in two calls; the caller stops
  after a first call that reports an error.
\<close>

definition WriteSplit ::
  "'w writer \<Rightarrow> ('w, 'fs) SourceMapFilter \<Rightarrow> bytes \<Rightarrow> nat \<Rightarrow> bytes \<Rightarrow> bytes \<Rightarrow>
     (nat \<times> string option \<times> ('w, 'fs) SourceMapFilter) result" where
  "WriteSplit wr f p k spare1 spare2 =
     (case Write wr f (take k p) spare1 of
        Inl e \<Rightarrow> Inl e
      | Inr (n1, err1, f1) \<Rightarrow>
          if err1 \<noteq> None then Inr (n1, err1, f1)
          else (case Write wr f1 (drop k p) spare2 of
                  Inl e \<Rightarrow> Inl e
                | Inr (n2, err2, f2) \<Rightarrow> Inr (n1 + n2, err2, f2)))"


section \<open>Archives and declarations\<close>

text \<open>
  The structs of compiler.go (lines 330-370). \<open>PkgPath\<close> and \<open>DepId\<close> are byte slices.
  \<open>FileSet\<close> is an option because \<open>WritePkgCode\<close> tests it against nil.
\<close>

record PkgImport =
  Path :: bytes
  VarName :: string

record Decl =
  Var :: string
  BodyCode :: bytes
  InitCode :: bytes
  DceFilters :: "bytes list"
  DceDeps :: "bytes list"

record Archive =
  ImportPath :: bytes
  GcData :: bytes
  Dependencies :: "bytes list"
  Imports :: "PkgImport list"
  Declarations :: "Decl list"
  Tests :: "string list"
  FileSet :: "bytes option"

section \<open>Dead code elimination (WriteProgramCode, lines 164-202)\<close>

text \<open>
  A \<open>*Decl\<close> points into \<open>pkg.Declarations\<close> of one of the archives: it is the pair of
  the archive's index in \<open>pkgs\<close> and the declaration's index in the archive. The list of
  archives is the store that the loop mutates (only \<open>DceFilters\<close> is ever written). The
  archives of \<open>pkgs\<close> are taken to be distinct objects. \<open>declsByObject\<close> is only looked
  up, extended and deleted from, never iterated: an association list represents it.
\<close>

type_synonym declRef = "nat \<times> nat"
type_synonym declMap = "(bytes \<times> declRef list) list"

definition getDecl :: "Archive list \<Rightarrow> declRef \<Rightarrow> Decl" where
  "getDecl pkgs r = Declarations (pkgs ! fst r) ! snd r"

definition setFilters :: "Archive list \<Rightarrow> declRef \<Rightarrow> bytes list \<Rightarrow> Archive list" where
  "setFilters pkgs r fs =
     pkgs[fst r := (pkgs ! fst r)\<lparr>Declarations :=
        (Declarations (pkgs ! fst r))[snd r := (getDecl pkgs r)\<lparr>DceFilters := fs\<rparr>]\<rparr>]"

text \<open>\<open>declsByObject[o] = append(declsByObject[o], d)\<close>\<close>

definition addDecl :: "declMap \<Rightarrow> bytes \<Rightarrow> declRef \<Rightarrow> declMap" where
  "addDecl m o' d = AList.update o' ((case map_of m o' of None \<Rightarrow> [] | Some ds \<Rightarrow> ds) @ [d]) m"

text \<open>
  The first loop (lines 166-178): a declaration without filters is pending, any other is
  appended to the entry of every one of its filters, keyed \<open>ImportPath + ":" + f\<close>.
\<close>

definition indexDecl :: "bytes \<Rightarrow> declRef \<Rightarrow> Decl \<Rightarrow> declRef list \<times> declMap \<Rightarrow> declRef list \<times> declMap" where
  "indexDecl path r d st =
     (case st of (pending, m) \<Rightarrow>
        if DceFilters d = [] then (pending @ [r], m)
        else (pending, fold (\<lambda>f m. addDecl m (path @ '':'' @ f) r) (DceFilters d) m))"

definition indexPkg :: "nat \<Rightarrow> Archive \<Rightarrow> declRef list \<times> declMap \<Rightarrow> declRef list \<times> declMap" where
  "indexPkg i pkg st =
     fold (\<lambda>j. indexDecl (ImportPath pkg) (i, j) (Declarations pkg ! j)) [0..<length (Declarations pkg)] st"

definition indexPkgs :: "Archive list \<Rightarrow> declRef list \<times> declMap" where
  "indexPkgs pkgs = fold (\<lambda>i. indexPkg i (pkgs ! i)) [0..<length pkgs] ([], [])"

text \<open>\<open>strings.Split\<close> with a one-byte separator: the pieces between the separators.\<close>

fun Split :: "bytes \<Rightarrow> char \<Rightarrow> bytes list" where
  "Split [] c = [[]]"
| "Split (b # bs) c =
     (if b = c then [] # Split bs c
      else (case Split bs c of [] \<Rightarrow> [[b]] | x # xs \<Rightarrow> (b # x) # xs))"

text \<open>
  Lines 189-195: the first filter equal to \<open>name\<close> is overwritten with the last one and the
  slice is shortened by one; nothing changes when no filter equals \<open>name\<close>.
\<close>

fun filterIndex :: "bytes list \<Rightarrow> bytes \<Rightarrow> nat option" where
  "filterIndex [] name = None"
| "filterIndex (f # fs) name = (if f = name then Some 0 else map_option Suc (filterIndex fs name))"

definition removeFilter :: "bytes \<Rightarrow> bytes list \<Rightarrow> bytes list" where
  "removeFilter name fs =
     (case filterIndex fs name of None \<Rightarrow> fs | Some i \<Rightarrow> butlast (fs[i := last fs]))"

text \<open>Lines 188-199, for one \<open>d\<close> of \<open>decls\<close>: drop the filter, push \<open>d\<close> when none is left.\<close>

definition unblock :: "bytes \<Rightarrow> declRef \<Rightarrow> Archive list \<times> declRef list \<Rightarrow> Archive list \<times> declRef list" where
  "unblock name d st =
     (case st of (pkgs, pending) \<Rightarrow>
        (let fs = removeFilter name (DceFilters (getDecl pkgs d))
         in (setFilters pkgs d fs, if fs = [] then pending @ [d] else pending)))"

text \<open>
  Lines 183-201, the loop over \<open>d.DceDeps\<close>. \<open>strings.Split(o, ":")[1]\<close> panics when the
  key has no colon.
\<close>

fun processDeps ::
  "bytes list \<Rightarrow> declMap \<times> Archive list \<times> declRef list \<Rightarrow> (declMap \<times> Archive list \<times> declRef list) result" where
  "processDeps [] st = Inr st"
| "processDeps (dep # deps) (m, pkgs, pending) =
     (case map_of m dep of
        None \<Rightarrow> processDeps deps (m, pkgs, pending)
      | Some decls \<Rightarrow>
          (case Split dep (CHR '':'') of
             _ # name # _ \<Rightarrow>
               (case fold (unblock name) decls (pkgs, pending) of
                  (pkgs', pending') \<Rightarrow> processDeps deps (AList.delete dep m, pkgs', pending'))
           | _ \<Rightarrow> Inl IndexOutOfRange))"

text \<open>The measure of the worklist loop: the entries still indexed plus the pending ones.\<close>

definition listings :: "declMap \<Rightarrow> nat" where
  "listings m = sum_list (map (\<lambda>(k, ds). length ds) m)"

lemma listings_delete_le: "listings (AList.delete k m) \<le> listings m"
  by (induction m) (auto simp: listings_def)

lemma listings_Cons: "listings ((k, ds) # m) = length ds + listings m"
  by (simp add: listings_def)

lemma listings_delete:
  "map_of m k = Some ds \<Longrightarrow> listings (AList.delete k m) + length ds \<le> listings m"
proof (induction m)
  case Nil
  then show ?case by simp
next
  case (Cons e m)
  obtain k' ds' where e: "e = (k', ds')" by (cases e)
  show ?case
  proof (cases "k' = k")
    case True
    with Cons.prems e listings_delete_le [of k m] show ?thesis
      by (simp add: listings_Cons)
  next
    case False
    with Cons e show ?thesis
      by (simp add: listings_Cons)
  qed
qed

lemma fold_unblock_length:
  "fold (unblock name) decls (pkgs, pending) = (pkgs', pending') \<Longrightarrow>
     length pending' \<le> length pending + length decls"
proof (induction decls arbitrary: pkgs pending)
  case Nil
  then show ?case by simp
next
  case (Cons d decls)
  obtain pkgs1 pending1 where s: "unblock name d (pkgs, pending) = (pkgs1, pending1)"
    by (cases "unblock name d (pkgs, pending)")
  then have "length pending1 \<le> length pending + 1"
    by (auto simp: unblock_def Let_def split: if_splits)
  moreover from Cons.prems s have "length pending' \<le> length pending1 + length decls"
    by (auto intro: Cons.IH)
  ultimately show ?case by simp
qed

lemma processDeps_measure:
  "processDeps deps (m, pkgs, pending) = Inr (m', pkgs', pending') \<Longrightarrow>
     listings m' + length pending' \<le> listings m + length pending"
proof (induction deps arbitrary: m pkgs pending)
  case Nil
  then show ?case by simp
next
  case (Cons dep deps)
  show ?case
  proof (cases "map_of m dep")
    case None
    with Cons show ?thesis by simp
  next
    case (Some decls)
    with Cons.prems obtain a name rest where sp: "Split dep (CHR '':'') = a # name # rest"
      by (auto split: list.splits)
    obtain pkgs1 pending1 where
      f: "fold (unblock name) decls (pkgs, pending) = (pkgs1, pending1)"
      by (cases "fold (unblock name) decls (pkgs, pending)")
    from Cons.prems Some sp f
    have r: "processDeps deps (AList.delete dep m, pkgs1, pending1) = Inr (m', pkgs', pending')"
      by simp
    from Cons.IH [OF r] fold_unblock_length [OF f] listings_delete [OF Some]
    show ?thesis by simp
  qed
qed

text \<open>Lines 180-202: pop the last pending declaration and process its dependencies.\<close>

function dceLoop :: "declMap \<times> Archive list \<times> declRef list \<Rightarrow> (declMap \<times> Archive list) result" where
  "dceLoop (m, pkgs, pending) =
     (if pending = [] then Inr (m, pkgs)
      else (case processDeps (DceDeps (getDecl pkgs (last pending))) (m, pkgs, butlast pending) of
              Inl e \<Rightarrow> Inl e
            | Inr st \<Rightarrow> dceLoop st))"
  by pat_completeness auto
termination
proof (relation "measure (\<lambda>(m, pkgs, pending). listings m + length pending)", goal_cases)
  case 1
  show ?case by simp
next
  case (2 m pkgs pending st)
  obtain m' pkgs' pending' where st: "st = (m', pkgs', pending')"
    by (cases st)
  from 2 st have "processDeps (DceDeps (getDecl pkgs (last pending))) (m, pkgs, butlast pending)
      = Inr (m', pkgs', pending')"
    by simp
  from processDeps_measure [OF this] 2(1) st show ?case
    by (cases pending rule: rev_cases) auto
qed

definition DCE :: "Archive list \<Rightarrow> (declMap \<times> Archive list) result" where
  "DCE pkgs = (case indexPkgs pkgs of (pending, m) \<Rightarrow> dceLoop (m, pkgs, pending))"

text \<open>
  What the liveness claims are stated with. \<open>validRef\<close>: the pointer denotes a
  declaration of \<open>pkgs\<close>. \<open>objectId\<close>: the key under which the first loop files a filter
  of a declaration. \<open>eraseFilters\<close>: the archives with every \<open>DceFilters\<close> blanked, so that
  two stores with the same image differ in \<open>DceFilters\<close> only.
\<close>

definition validRef :: "Archive list \<Rightarrow> declRef \<Rightarrow> bool" where
  "validRef pkgs r \<longleftrightarrow> fst r < length pkgs \<and> snd r < length (Declarations (pkgs ! fst r))"

definition objectId :: "Archive list \<Rightarrow> declRef \<Rightarrow> bytes \<Rightarrow> bytes" where
  "objectId pkgs r f = ImportPath (pkgs ! fst r) @ '':'' @ f"

definition filtersOf :: "Archive list \<Rightarrow> declRef \<Rightarrow> bytes list" where
  "filtersOf pkgs r = DceFilters (getDecl pkgs r)"

definition depsOf :: "Archive list \<Rightarrow> declRef \<Rightarrow> bytes list" where
  "depsOf pkgs r = DceDeps (getDecl pkgs r)"

text \<open>
  \<open>live\<close> is the least set of declarations closed under: a declaration belongs to it when
  each of its filters, as an object id, is a dependency of some member (a declaration
  without filters is a member outright). \<open>reachable\<close> is the reading of the specification:
  reachable from a declaration without filters through dependency-to-filter hops, one
  matching filter being enough for a hop.
\<close>

inductive live :: "Archive list \<Rightarrow> declRef \<Rightarrow> bool" for pkgs where
  liveI: "validRef pkgs r \<Longrightarrow>
          (\<forall>f \<in> set (filtersOf pkgs r). \<exists>r'. live pkgs r' \<and> objectId pkgs r f \<in> set (depsOf pkgs r')) \<Longrightarrow>
          live pkgs r"

inductive reachable :: "Archive list \<Rightarrow> declRef \<Rightarrow> bool" for pkgs where
  seed: "validRef pkgs r \<Longrightarrow> filtersOf pkgs r = [] \<Longrightarrow> reachable pkgs r"
| hop: "reachable pkgs r' \<Longrightarrow> validRef pkgs r \<Longrightarrow> f \<in> set (filtersOf pkgs r) \<Longrightarrow>
        objectId pkgs r f \<in> set (depsOf pkgs r') \<Longrightarrow> reachable pkgs r"

text \<open>No import path and no filter name contains the separator of the object ids.\<close>

definition noColon :: "Archive list \<Rightarrow> bool" where
  "noColon pkgs \<longleftrightarrow>
     (\<forall>a \<in> set pkgs. CHR '':'' \<notin> set (ImportPath a) \<and>
        (\<forall>d \<in> set (Declarations a). \<forall>f \<in> set (DceFilters d). CHR '':'' \<notin> set f))"

definition eraseFilters :: "Archive list \<Rightarrow> Archive list" where
  "eraseFilters pkgs =
     map (\<lambda>a. a\<lparr>Declarations := map (\<lambda>d. d\<lparr>DceFilters := []\<rparr>) (Declarations a)\<rparr>) pkgs"

text \<open>The entry of a key, empty when the key is absent.\<close>

definition declsOf :: "declMap \<Rightarrow> bytes \<Rightarrow> declRef list" where
  "declsOf m k = (case map_of m k of None \<Rightarrow> [] | Some ds \<Rightarrow> ds)"

text \<open>No key is bound to an empty list.\<close>

definition wfMap :: "declMap \<Rightarrow> bool" where
  "wfMap m \<longleftrightarrow> (\<forall>k ds. map_of m k = Some ds \<longrightarrow> ds \<noteq> [])"

text \<open>
  \<open>isIndex S0 M0\<close>: \<open>M0\<close> lists every declaration under each key as often as the
  declaration has a filter with that key. \<open>dceInv\<close> is the invariant of the worklist loop
  against the initial store \<open>S0\<close> and index \<open>M0\<close>: only filters have changed; an entry is
  intact or deleted; the filters left are the initial ones whose key is still indexed;
  pending declarations are drained; the dependencies of a drained declaration that is not
  pending have been consumed, those in \<open>todo\<close> apart; and every consumed key is a dependency
  of a live declaration. \<open>dceFrame\<close> is its part that needs no assumption on the names.
\<close>

definition isIndex :: "Archive list \<Rightarrow> declMap \<Rightarrow> bool" where
  "isIndex S0 M0 \<longleftrightarrow> wfMap M0 \<and>
     (\<forall>k r. count_list (declsOf M0 k) r =
        (if validRef S0 r then count_list (map (objectId S0 r) (filtersOf S0 r)) k else 0))"

definition dceInv ::
  "Archive list \<Rightarrow> declMap \<Rightarrow> bytes list \<Rightarrow> declMap \<times> Archive list \<times> declRef list \<Rightarrow> bool" where
  "dceInv S0 M0 todo st \<longleftrightarrow>
     (case st of (m, S, P) \<Rightarrow>
        eraseFilters S = eraseFilters S0 \<and>
        (\<forall>k. map_of m k = None \<or> map_of m k = map_of M0 k) \<and>
        (\<forall>r. validRef S0 r \<longrightarrow>
           mset (filtersOf S r) =
             filter_mset (\<lambda>f. map_of m (objectId S0 r f) \<noteq> None) (mset (filtersOf S0 r))) \<and>
        (\<forall>r \<in> set P. validRef S0 r \<and> filtersOf S r = []) \<and>
        (\<forall>r dep. validRef S0 r \<and> filtersOf S r = [] \<and> r \<notin> set P \<and> dep \<in> set (depsOf S0 r) \<longrightarrow>
           map_of m dep = None \<or> dep \<in> set todo) \<and>
        (\<forall>k. map_of M0 k \<noteq> None \<and> map_of m k = None \<longrightarrow>
           (\<exists>r. live S0 r \<and> k \<in> set (depsOf S0 r))))"

definition dceFrame ::
  "Archive list \<Rightarrow> declMap \<Rightarrow> declMap \<times> Archive list \<times> declRef list \<Rightarrow> bool" where
  "dceFrame S0 M0 st \<longleftrightarrow>
     (case st of (m, S, P) \<Rightarrow>
        eraseFilters S = eraseFilters S0 \<and>
        (\<forall>k. map_of m k = None \<or> map_of m k = map_of M0 k) \<and>
        (\<forall>r. validRef S0 r \<longrightarrow> mset (filtersOf S r) \<subseteq># mset (filtersOf S0 r)))"

text \<open>Fixtures: a declaration with the given filters and dependencies, an archive with the given declarations.\<close>

definition declWith :: "bytes list \<Rightarrow> bytes list \<Rightarrow> Decl" where
  "declWith fs ds = \<lparr>Var = [], BodyCode = [], InitCode = [], DceFilters = fs, DceDeps = ds\<rparr>"

definition archiveWith :: "bytes \<Rightarrow> Decl list \<Rightarrow> Archive" where
  "archiveWith p ds =
     \<lparr>ImportPath = p, GcData = [], Dependencies = [], Imports = [], Declarations = ds,
      Tests = [], FileSet = None\<rparr>"

definition dceExample :: "Archive list" where
  "dceExample =
     [archiveWith ''p''
        [declWith [] [''p:f'', ''q:h''], declWith [''f''] [], declWith [''f'', ''g''] [],
         declWith [''z''] []],
      archiveWith ''q'' [declWith [''h'', ''h''] [''p:g'']]]"

section \<open>Emission (WritePkgCode, lines 275-308)\<close>

text \<open>
  What the emitters use and compiler.go does not define. \<open>removeWhitespace\<close> and \<open>prelude\<close>
  live in other files of the package, \<open>strings.TrimSpace\<close> is the standard library, and
  \<open>readFileSet\<close> stands for \<open>token.NewFileSet().Read\<close> on the JSON position table (\<open>None\<close>
  when it returns an error). They are parameters of the model.
\<close>

record 'fs emitEnv =
  removeWhitespace :: "bytes \<Rightarrow> bool \<Rightarrow> bytes"
  prelude :: string
  TrimSpace :: "string \<Rightarrow> string"
  readFileSet :: "bytes \<Rightarrow> 'fs option"

text \<open>
  A call \<open>w.Write(p)\<close> whose results are discarded, as every call in the emitters is; a
  panic propagates. The spare capacity of the slice is irrelevant to the result (see
  \<^emph>\<open>Write\_spare\<close> below), so the slice is taken to have none.
\<close>

definition emit :: "'w writer \<Rightarrow> ('w, 'fs) SourceMapFilter \<Rightarrow> bytes \<Rightarrow> ('w, 'fs) SourceMapFilter result" where
  "emit wr w p = (case Write wr w p [] of Inl e \<Rightarrow> Inl e | Inr (n, err, w') \<Rightarrow> Inr w')"

text \<open>A \<open>for ... range\<close> loop whose body may panic.\<close>

fun forEach :: "('a \<Rightarrow> 's \<Rightarrow> 's result) \<Rightarrow> 'a list \<Rightarrow> 's \<Rightarrow> 's result" where
  "forEach body [] s = Inr s"
| "forEach body (x # xs) s = bnd (body x s) (forEach body xs)"

text \<open>\<open>strings.Join\<close>.\<close>

fun Join :: "string list \<Rightarrow> string \<Rightarrow> string" where
  "Join [] sep = []"
| "Join [a] sep = a"
| "Join (a # b # rest) sep = a @ sep @ Join (b # rest) sep"

text \<open>Lines 276-281: with a callback and a position table, decode the table or panic.\<close>

definition loadFileSet ::
  "'fs emitEnv \<Rightarrow> Archive \<Rightarrow> ('w, 'fs) SourceMapFilter \<Rightarrow> ('w, 'fs) SourceMapFilter result" where
  "loadFileSet env pkg w =
     (if MappingCallback w \<and> FileSet pkg \<noteq> None
      then (case readFileSet env (the (FileSet pkg)) of
              None \<Rightarrow> Inl FileSetReadError
            | Some fs \<Rightarrow> Inr (w\<lparr>fileSet := Some fs\<rparr>))
      else Inr w)"

definition WritePkgCode ::
  "'fs emitEnv \<Rightarrow> 'w writer \<Rightarrow> Archive \<Rightarrow> bool \<Rightarrow> ('w, 'fs) SourceMapFilter \<Rightarrow>
     ('w, 'fs) SourceMapFilter result" where
  "WritePkgCode env wr pkg minify w0 =
     bnd (loadFileSet env pkg w0) (\<lambda>w.
     bnd (emit wr w (removeWhitespace env
            (''$packages['' @ [CHR 0x22] @ ImportPath pkg @ [CHR 0x22] @ ''] = (function() {'' @ [newline])
            minify)) (\<lambda>w.
     (let vars = [''$pkg = {}''];
          vars = fold (\<lambda>imp vars. vars @
                   [VarName imp @ '' = $packages['' @ [CHR 0x22] @ Path imp @ [CHR 0x22] @ '']''])
                   (Imports pkg) vars;
          vars = fold (\<lambda>d vars. if length (DceFilters d) = 0 \<and> Var d \<noteq> [] then vars @ [Var d] else vars)
                   (Declarations pkg) vars
      in
     bnd (if length vars \<noteq> 0
          then emit wr w (removeWhitespace env
                 ([CHR 0x09] @ ''var '' @ Join vars '', '' @ '';'' @ [newline]) minify)
          else Inr w) (\<lambda>w.
     bnd (forEach (\<lambda>d w. if length (DceFilters d) = 0 then emit wr w (BodyCode d) else Inr w)
            (Declarations pkg) w) (\<lambda>w.
     bnd (emit wr w (removeWhitespace env
            ([CHR 0x09] @ ''$pkg.init = function() {'' @ [newline]) minify)) (\<lambda>w.
     bnd (forEach (\<lambda>d w. if length (DceFilters d) = 0 then emit wr w (InitCode d) else Inr w)
            (Declarations pkg) w) (\<lambda>w.
     bnd (emit wr w (removeWhitespace env
            ([CHR 0x09] @ ''};'' @ [newline, CHR 0x09] @ ''return $pkg;'' @ [newline] @ ''})();'')
            minify)) (\<lambda>w.
     emit wr w [newline]))))))))"

text \<open>
  The package emitter as the specification words it: the list of the chunks written, in
  order. \<open>stripCookies\<close> is a chunk without its sentinels and cookies.
\<close>

definition isLive :: "Decl \<Rightarrow> bool" where
  "isLive d \<longleftrightarrow> DceFilters d = []"

definition importBinding :: "PkgImport \<Rightarrow> string" where
  "importBinding imp = VarName imp @ '' = $packages['' @ [CHR 0x22] @ Path imp @ [CHR 0x22] @ '']''"

definition pkgVars :: "Archive \<Rightarrow> string list" where
  "pkgVars pkg =
     ''$pkg = {}'' # map importBinding (Imports pkg) @
       map Var (filter (\<lambda>d. isLive d \<and> Var d \<noteq> []) (Declarations pkg))"

definition pkgChunks :: "'fs emitEnv \<Rightarrow> Archive \<Rightarrow> bool \<Rightarrow> bytes list" where
  "pkgChunks env pkg minify =
     [removeWhitespace env
        (''$packages['' @ [CHR 0x22] @ ImportPath pkg @ [CHR 0x22] @ ''] = (function() {'' @ [newline])
        minify,
      removeWhitespace env
        ([CHR 0x09] @ ''var '' @ Join (pkgVars pkg) '', '' @ '';'' @ [newline]) minify] @
     map BodyCode (filter isLive (Declarations pkg)) @
     [removeWhitespace env ([CHR 0x09] @ ''$pkg.init = function() {'' @ [newline]) minify] @
     map InitCode (filter isLive (Declarations pkg)) @
     [removeWhitespace env
        ([CHR 0x09] @ ''};'' @ [newline, CHR 0x09] @ ''return $pkg;'' @ [newline] @ ''})();'') minify,
      [newline]]"

function stripCookies :: "bytes \<Rightarrow> bytes" where
  "stripCookies [] = []"
| "stripCookies (b # bs) = (if b = sentinel then stripCookies (drop 4 bs) else b # stripCookies bs)"
  by pat_completeness auto

termination
  by (relation "measure length") auto

text \<open>The byte-by-byte scan over a list of chunks, and fixtures for the examples.\<close>

definition scanAll :: "(bytes, 'fs) SourceMapFilter \<Rightarrow> bytes list \<Rightarrow> (bytes, 'fs) SourceMapFilter" where
  "scanAll f cs = fold (\<lambda>c f. scanSpec f c) cs f"

definition plainEnv :: "unit emitEnv" where
  "plainEnv = \<lparr>removeWhitespace = (\<lambda>b minify. b), prelude = ''PRELUDE'', TrimSpace = (\<lambda>s. s),
              readFileSet = (\<lambda>b. Some ())\<rparr>"

definition plainFilter :: "(bytes, unit) SourceMapFilter" where
  "plainFilter = \<lparr>Writer = [], MappingCallback = False, line = 0, column = 0, fileSet = None, calls = []\<rparr>"

definition pkgExample :: Archive where
  "pkgExample =
     \<lparr>ImportPath = ''p'', GcData = [], Dependencies = [],
      Imports = [\<lparr>Path = ''q'', VarName = ''q''\<rparr>],
      Declarations =
        [\<lparr>Var = ''x'', BodyCode = ''B'' @ [sentinel, CHR 0x00, CHR 0x00, CHR 0x00, CHR 0x01] @ '';'',
          InitCode = ''I;'', DceFilters = [], DceDeps = []\<rparr>,
         \<lparr>Var = ''y'', BodyCode = ''DEAD'', InitCode = ''DEAD'', DceFilters = [''f''], DceDeps = []\<rparr>],
      Tests = [], FileSet = None\<rparr>"

section \<open>Interface tables and the program (WriteProgramCode, lines 204-272)\<close>

text \<open>
  The part of go/types that \<open>WriteProgramCode\<close> consults, as parameters: a type is a value
  of \<open>'ty\<close>; \<open>kindOf\<close> is the dynamic type of an underlying type as the type switches read it
  (\<open>Interface e\<close> with \<open>e\<close> for \<open>Empty()\<close>); \<open>errorTypeName\<close> is
  \<open>types.New("error").(*types.Named).Obj()\<close>; \<open>Pkg\<close> is \<open>None\<close> for a nil package. A scope is
  the list of its names, in the order of \<open>Names()\<close>, each with what \<open>Lookup\<close> returns.
  \<open>typesPackages\<close> is the map of the compiler; a missing entry is a nil \<open>*types.Package\<close>,
  and calling \<open>Scope()\<close> on it is modelled as a nil dereference.
\<close>

datatype typeKind = Interface bool | Struct | OtherKind

record 'ty TypeName =
  Name :: string
  Pkg :: "string option"
  Type :: 'ty

datatype 'ty Object = TypeNameObject "'ty TypeName" | OtherObject

record 'ty typesEnv =
  errorTypeName :: "'ty TypeName"
  Underlying :: "'ty \<Rightarrow> 'ty"
  kindOf :: "'ty \<Rightarrow> typeKind"
  NewPointer :: "'ty \<Rightarrow> 'ty"
  AssignableTo :: "'ty \<Rightarrow> 'ty \<Rightarrow> bool"

type_synonym 'ty Scope = "(string \<times> 'ty Object) list"

text \<open>Lines 214-224: the candidates, \<open>error\<close> first, then the type names that are still in use.\<close>

definition scopeTypeNames ::
  "declMap \<Rightarrow> bytes \<Rightarrow> 'ty Scope \<Rightarrow> 'ty TypeName list \<Rightarrow> 'ty TypeName list" where
  "scopeTypeNames declsByObject path scope allTypeNames =
     fold (\<lambda>(name, obj) all.
             case obj of
               TypeNameObject typeName \<Rightarrow>
                 if map_of declsByObject (path @ '':'' @ name) = None then all @ [typeName] else all
             | OtherObject \<Rightarrow> all)
       scope allTypeNames"

definition collectTypeNames ::
  "'ty typesEnv \<Rightarrow> (string \<rightharpoonup> 'ty Scope) \<Rightarrow> declMap \<Rightarrow> Archive list \<Rightarrow> 'ty TypeName list result" where
  "collectTypeNames te typesPackages declsByObject pkgs =
     forEach (\<lambda>pkg all.
                case typesPackages (ImportPath pkg) of
                  None \<Rightarrow> Inl NilDereference
                | Some scope \<Rightarrow> Inr (scopeTypeNames declsByObject (ImportPath pkg) scope all))
       pkgs [errorTypeName te]"

text \<open>
  \<open>fmt.Sprintf("$packages[\"%s\"].%s", other.Pkg().Path(), other.Name())\<close>, and
  \<open>implementedBy[k] = true\<close> on a map whose keys are kept as a list without duplicates.
\<close>

definition qualifiedName :: "'ty TypeName \<Rightarrow> string result" where
  "qualifiedName t =
     (case Pkg t of
        None \<Rightarrow> Inl NilDereference
      | Some path \<Rightarrow> Inr (''$packages['' @ [CHR 0x22] @ path @ [CHR 0x22] @ ''].'' @ Name t))"

definition setKey :: "string \<Rightarrow> string list \<Rightarrow> string list" where
  "setKey k keys = (if k \<in> set keys then keys else keys @ [k])"

text \<open>Lines 231-251, the body of the loop over \<open>other\<close>.\<close>

definition addImplementor ::
  "'ty typesEnv \<Rightarrow> 'ty \<Rightarrow> 'ty TypeName \<Rightarrow> string list \<Rightarrow> string list result" where
  "addImplementor te in' other implementedBy =
     (let otherType = Type other in
      case kindOf te (Underlying te otherType) of
        Interface e \<Rightarrow> Inr implementedBy
      | Struct \<Rightarrow>
          bnd (if AssignableTo te otherType in'
               then bnd (qualifiedName other) (\<lambda>q. Inr (setKey q implementedBy))
               else Inr implementedBy) (\<lambda>implementedBy.
          if AssignableTo te (NewPointer te otherType) in'
          then bnd (qualifiedName other) (\<lambda>q. Inr (setKey (q @ ''.Ptr'') implementedBy))
          else Inr implementedBy)
      | OtherKind \<Rightarrow>
          bnd (if AssignableTo te otherType in'
               then bnd (qualifiedName other) (\<lambda>q. Inr (setKey q implementedBy))
               else Inr implementedBy) (\<lambda>implementedBy.
          if AssignableTo te (NewPointer te otherType) in'
          then bnd (qualifiedName other) (\<lambda>q. Inr (setKey (''$ptrType('' @ q @ '')'') implementedBy))
          else Inr implementedBy))"

text \<open>
  Lines 230-256. Go enumerates the keys of a map in an unspecified order: \<open>mapOrder\<close>
  rearranges the keys into the order of one run. The list is then sorted.
\<close>

definition implementedByList ::
  "'ty typesEnv \<Rightarrow> (string list \<Rightarrow> string list) \<Rightarrow> 'ty \<Rightarrow> 'ty TypeName list \<Rightarrow> string list result" where
  "implementedByList te mapOrder in' allTypeNames =
     bnd (forEach (addImplementor te in') allTypeNames []) (\<lambda>implementedBy.
     Inr (sort (mapOrder implementedBy)))"

text \<open>Lines 226-265, the body of the loop over \<open>allTypeNames\<close>.\<close>

definition writeInterface ::
  "'fs emitEnv \<Rightarrow> 'ty typesEnv \<Rightarrow> (string list \<Rightarrow> string list) \<Rightarrow> 'w writer \<Rightarrow> bool \<Rightarrow>
     'ty TypeName list \<Rightarrow> 'ty TypeName \<Rightarrow> ('w, 'fs) SourceMapFilter \<Rightarrow> ('w, 'fs) SourceMapFilter result" where
  "writeInterface env te mapOrder wr minify allTypeNames t w =
     (case kindOf te (Underlying te (Type t)) of
        Interface isEmpty \<Rightarrow>
          if isEmpty then Inr w
          else
            bnd (implementedByList te mapOrder (Underlying te (Type t)) allTypeNames) (\<lambda>list.
            bnd (if Name t = ''error'' then Inr ''$error'' else qualifiedName t) (\<lambda>target.
            emit wr w (removeWhitespace env
              (target @ ''.implementedBy = ['' @ Join list '', '' @ ''];'' @ [newline]) minify)))
      | Struct \<Rightarrow> Inr w
      | OtherKind \<Rightarrow> Inr w)"

text \<open>
  \<open>WriteProgramCode\<close> (lines 163-273). It returns nothing; what it leaves behind is the
  archives with their filters drained and the filter it wrote to.
\<close>

definition WriteProgramCode ::
  "'fs emitEnv \<Rightarrow> 'ty typesEnv \<Rightarrow> (string \<rightharpoonup> 'ty Scope) \<Rightarrow> (string list \<Rightarrow> string list) \<Rightarrow>
     'w writer \<Rightarrow> Archive list \<Rightarrow> string \<Rightarrow> bool \<Rightarrow> ('w, 'fs) SourceMapFilter \<Rightarrow>
     (Archive list \<times> ('w, 'fs) SourceMapFilter) result" where
  "WriteProgramCode env te typesPackages mapOrder wr pkgs0 mainPkgPath minify w0 =
     bnd (DCE pkgs0) (\<lambda>(declsByObject, pkgs).
     bnd (emit wr w0 ([CHR 0x22] @ ''use strict'' @ [CHR 0x22] @ '';'' @ [newline] @
                      ''(function() {'' @ [newline, newline])) (\<lambda>w.
     bnd (emit wr w (removeWhitespace env (TrimSpace env (prelude env)) minify)) (\<lambda>w.
     bnd (emit wr w [newline]) (\<lambda>w.
     bnd (forEach (\<lambda>pkg w. WritePkgCode env wr pkg minify w) pkgs w) (\<lambda>w.
     bnd (collectTypeNames te typesPackages declsByObject pkgs) (\<lambda>allTypeNames.
     bnd (forEach (writeInterface env te mapOrder wr minify allTypeNames) allTypeNames w) (\<lambda>w.
     bnd (forEach (\<lambda>pkg w. emit wr w
            (''$packages['' @ [CHR 0x22] @ ImportPath pkg @ [CHR 0x22] @ ''].init();'' @ [newline]))
            pkgs w) (\<lambda>w.
     bnd (emit wr w (''$packages['' @ [CHR 0x22] @ mainPkgPath @ [CHR 0x22] @
                     ''].main(function() {});'' @ [newline, newline] @ ''})();'' @ [newline])) (\<lambda>w.
     Inr (pkgs, w))))))))))"

text \<open>A small universe of types for the examples.\<close>

datatype goType = Named string | Pointer goType | InterfaceType "string list" | StructType | Basic

definition sampleTypes :: "goType typesEnv" where
  "sampleTypes =
     \<lparr>errorTypeName = \<lparr>Name = ''error'', Pkg = None, Type = Named ''error''\<rparr>,
      Underlying = (\<lambda>t. if t = Named ''error'' then InterfaceType [''Error'']
                         else if t = Named ''I'' then InterfaceType [''M'']
                         else if t = Named ''E'' then InterfaceType []
                         else if t = Named ''S'' then StructType
                         else if t = Named ''N'' then Basic else t),
      kindOf = (\<lambda>t. case t of InterfaceType ms \<Rightarrow> Interface (ms = []) | StructType \<Rightarrow> Struct | _ \<Rightarrow> OtherKind),
      NewPointer = Pointer,
      AssignableTo = (\<lambda>v t. t = InterfaceType [''M''] \<and> v \<in> {Named ''S'', Pointer (Named ''S''), Pointer (Named ''N''), Named ''I''})\<rparr>"

definition sampleScope :: "goType Scope" where
  "sampleScope =
     [(''E'', TypeNameObject \<lparr>Name = ''E'', Pkg = Some ''p'', Type = Named ''E''\<rparr>),
      (''I'', TypeNameObject \<lparr>Name = ''I'', Pkg = Some ''p'', Type = Named ''I''\<rparr>),
      (''N'', TypeNameObject \<lparr>Name = ''N'', Pkg = Some ''p'', Type = Named ''N''\<rparr>),
      (''S'', TypeNameObject \<lparr>Name = ''S'', Pkg = Some ''p'', Type = Named ''S''\<rparr>),
      (''f'', OtherObject)]"

text \<open>
  The interface tables as the specification words them. \<open>qualifies\<close>: the underlying type is
  an interface with at least one method. \<open>implementorRefs\<close>: the value-form and pointer-form
  references of the non-interface candidates assignable to the interface. \<open>tableChunk\<close>:
  the statement written for one interface. \<open>tablesWf\<close>: every candidate that is named in
  the output belongs to a package (the built-in \<open>error\<close> has none and is named \<open>$error\<close>).
  \<open>isMapOrder\<close>: an enumeration order of map keys, any rearrangement of them.
\<close>

definition isInterfaceType :: "'ty typesEnv \<Rightarrow> 'ty TypeName \<Rightarrow> bool" where
  "isInterfaceType te t =
     (case kindOf te (Underlying te (Type t)) of Interface e \<Rightarrow> True | Struct \<Rightarrow> False | OtherKind \<Rightarrow> False)"

definition qualifies :: "'ty typesEnv \<Rightarrow> 'ty TypeName \<Rightarrow> bool" where
  "qualifies te t \<longleftrightarrow> kindOf te (Underlying te (Type t)) = Interface False"

definition valueRef :: "'ty TypeName \<Rightarrow> string" where
  "valueRef t = ''$packages['' @ [CHR 0x22] @ the (Pkg t) @ [CHR 0x22] @ ''].'' @ Name t"

definition pointerRef :: "'ty typesEnv \<Rightarrow> 'ty TypeName \<Rightarrow> string" where
  "pointerRef te t =
     (if kindOf te (Underlying te (Type t)) = Struct then valueRef t @ ''.Ptr''
      else ''$ptrType('' @ valueRef t @ '')'')"

definition implementorRefs :: "'ty typesEnv \<Rightarrow> 'ty \<Rightarrow> 'ty TypeName list \<Rightarrow> string set" where
  "implementorRefs te in' allTypeNames =
     valueRef ` {t \<in> set allTypeNames. \<not> isInterfaceType te t \<and> AssignableTo te (Type t) in'} \<union>
     pointerRef te ` {t \<in> set allTypeNames.
        \<not> isInterfaceType te t \<and> AssignableTo te (NewPointer te (Type t)) in'}"

definition tableChunk :: "'fs emitEnv \<Rightarrow> 'ty typesEnv \<Rightarrow> bool \<Rightarrow> 'ty TypeName list \<Rightarrow> 'ty TypeName \<Rightarrow> bytes" where
  "tableChunk env te minify allTypeNames t =
     removeWhitespace env
       ((if Name t = ''error'' then ''$error'' else valueRef t) @ ''.implementedBy = ['' @
        Join (sorted_list_of_set (implementorRefs te (Underlying te (Type t)) allTypeNames)) '', '' @
        ''];'' @ [newline]) minify"

definition implementorsWf :: "'ty typesEnv \<Rightarrow> 'ty TypeName list \<Rightarrow> bool" where
  "implementorsWf te allTypeNames \<longleftrightarrow>
     (\<forall>t \<in> set allTypeNames. isInterfaceType te t \<or> Pkg t \<noteq> None)"

definition tablesWf :: "'ty typesEnv \<Rightarrow> 'ty TypeName list \<Rightarrow> bool" where
  "tablesWf te allTypeNames \<longleftrightarrow>
     implementorsWf te allTypeNames \<and>
     (\<forall>t \<in> set allTypeNames. qualifies te t \<longrightarrow> Name t = ''error'' \<or> Pkg t \<noteq> None)"

definition isMapOrder :: "(string list \<Rightarrow> string list) \<Rightarrow> bool" where
  "isMapOrder mapOrder \<longleftrightarrow> (\<forall>keys. mset (mapOrder keys) = mset keys)"

text \<open>The candidate list in closed form, and the candidates of the examples.\<close>

definition candidateTypeNames ::
  "'ty typesEnv \<Rightarrow> (string \<rightharpoonup> 'ty Scope) \<Rightarrow> declMap \<Rightarrow> Archive list \<Rightarrow> 'ty TypeName list" where
  "candidateTypeNames te typesPackages declsByObject pkgs =
     errorTypeName te #
     concat (map (\<lambda>pkg.
       concat (map (\<lambda>(name, obj).
           case obj of
             TypeNameObject typeName \<Rightarrow>
               if map_of declsByObject (ImportPath pkg @ '':'' @ name) = None then [typeName] else []
           | OtherObject \<Rightarrow> [])
         (the (typesPackages (ImportPath pkg))))) pkgs)"

definition sampleTypeNames :: "goType TypeName list" where
  "sampleTypeNames =
     [\<lparr>Name = ''error'', Pkg = None, Type = Named ''error''\<rparr>,
      \<lparr>Name = ''S'', Pkg = Some ''p'', Type = Named ''S''\<rparr>,
      \<lparr>Name = ''I'', Pkg = Some ''p'', Type = Named ''I''\<rparr>,
      \<lparr>Name = ''N'', Pkg = Some ''p'', Type = Named ''N''\<rparr>,
      \<lparr>Name = ''E'', Pkg = Some ''p'', Type = Named ''E''\<rparr>]"

section \<open>The output of the program, chunk by chunk\<close>

text \<open>
  The chunks that \<open>WriteProgramCode\<close> passes to \<open>Write\<close>, in order (lines 204-272): the
  opening boilerplate, the prelude and a newline; the chunks of each package; one table
  for each candidate whose underlying type is a non-empty interface; one init call for
  each package; the call of the main package's \<open>main\<close> with the closing boilerplate.
\<close>

definition programChunks ::
  "'fs emitEnv \<Rightarrow> 'ty typesEnv \<Rightarrow> bool \<Rightarrow> string \<Rightarrow> Archive list \<Rightarrow> 'ty TypeName list \<Rightarrow> bytes list" where
  "programChunks env te minify mainPkgPath pkgs allTypeNames =
     [[CHR 0x22] @ ''use strict'' @ [CHR 0x22] @ '';'' @ [newline] @ ''(function() {'' @ [newline, newline],
      removeWhitespace env (TrimSpace env (prelude env)) minify,
      [newline]] @
     concat (map (\<lambda>pkg. pkgChunks env pkg minify) pkgs) @
     map (tableChunk env te minify allTypeNames) (filter (qualifies te) allTypeNames) @
     map (\<lambda>pkg. ''$packages['' @ [CHR 0x22] @ ImportPath pkg @ [CHR 0x22] @ ''].init();'' @ [newline]) pkgs @
     [''$packages['' @ [CHR 0x22] @ mainPkgPath @ [CHR 0x22] @ ''].main(function() {});'' @
        [newline, newline] @ ''})();'' @ [newline]]"

text \<open>Every position table of the packages decodes (otherwise line 279 panics).\<close>

definition fileSetsLoad :: "'fs emitEnv \<Rightarrow> Archive list \<Rightarrow> bool" where
  "fileSetsLoad env pkgs \<longleftrightarrow>
     (\<forall>pkg \<in> set pkgs. case FileSet pkg of None \<Rightarrow> True | Some b \<Rightarrow> readFileSet env b \<noteq> None)"

text \<open>
  A step that, started on a buffer writer in any state with callback setting \<open>cb\<close>, returns
  and has appended \<open>out\<close> to the bytes written.
\<close>

definition emitsTo ::
  "bool \<Rightarrow> ((bytes, 'fs) SourceMapFilter \<Rightarrow> (bytes, 'fs) SourceMapFilter result) \<Rightarrow> bytes \<Rightarrow> bool" where
  "emitsTo cb step out \<longleftrightarrow>
     (\<forall>w. MappingCallback w = cb \<longrightarrow>
        (\<exists>w'. step w = Inr w' \<and> Writer w' = Writer w @ out \<and> MappingCallback w' = cb))"

text \<open>A program of one package with one unfiltered declaration and no imports.\<close>

definition oneDeclPackage :: Archive where
  "oneDeclPackage =
     \<lparr>ImportPath = ''p'', GcData = [], Dependencies = [], Imports = [],
      Declarations = [\<lparr>Var = ''x'', BodyCode = ''B;'', InitCode = ''I;'', DceFilters = [], DceDeps = []\<rparr>],
      Tests = [], FileSet = None\<rparr>"

section \<open>Determinism\<close>

text \<open>
  Two inputs with the same Filters/Deps relation: the same packages and declarations, and
  for every declaration the same set of filters and the same set of dependencies, whatever
  their order and multiplicity in the lists.
\<close>

definition sameRelation :: "Archive list \<Rightarrow> Archive list \<Rightarrow> bool" where
  "sameRelation pkgs pkgs' \<longleftrightarrow>
     length pkgs = length pkgs' \<and>
     (\<forall>i < length pkgs.
        ImportPath (pkgs ! i) = ImportPath (pkgs' ! i) \<and>
        length (Declarations (pkgs ! i)) = length (Declarations (pkgs' ! i)) \<and>
        (\<forall>j < length (Declarations (pkgs ! i)).
           set (DceFilters (Declarations (pkgs ! i) ! j)) = set (DceFilters (Declarations (pkgs' ! i) ! j)) \<and>
           set (DceDeps (Declarations (pkgs ! i) ! j)) = set (DceDeps (Declarations (pkgs' ! i) ! j))))"

text \<open>The example of the DCE with its lists reordered and a dependency repeated.\<close>

definition dceExampleReordered :: "Archive list" where
  "dceExampleReordered =
     [archiveWith ''p''
        [declWith [] [''q:h'', ''p:f'', ''q:h''], declWith [''f'', ''f''] [], declWith [''g'', ''f''] [],
         declWith [''z''] []],
      archiveWith ''q'' [declWith [''h''] [''p:g'']]]"

section \<open>Archives on disk (UnmarshalArchive, lines 310-324)\<close>

text \<open>
  The two library calls of \<open>UnmarshalArchive\<close>, as parameters. \<open>asn1Unmarshal\<close> is
  \<open>asn1.Unmarshal(data, &a)\<close>: an error, or the bytes left over (which the code drops) and
  the archive decoded. \<open>ImportData\<close> is \<open>gcimporter.ImportData\<close> on the compiler's
  \<open>typesPackages\<close>, which it may extend: it returns the map as it leaves it and an error or
  the package imported. \<open>pkgPath\<close> is \<open>pkg.Path()\<close>. A non-nil Go error is a value of
  \<open>'err\<close>.
\<close>

record ('pkg, 'err) archiveEnv =
  asn1Unmarshal :: "bytes \<Rightarrow> 'err + bytes \<times> Archive"
  ImportData :: "(string \<rightharpoonup> 'pkg) \<Rightarrow> string \<Rightarrow> string \<Rightarrow> bytes \<Rightarrow> (string \<rightharpoonup> 'pkg) \<times> ('err + 'pkg)"
  pkgPath :: "'pkg \<Rightarrow> string"

text \<open>
  Lines 310-324. The result is the pair \<open>(*Archive, error)\<close> that the function returns,
  \<open>None\<close> for nil, and the \<open>typesPackages\<close> map that it leaves behind.
\<close>

definition UnmarshalArchive ::
  "('pkg, 'err) archiveEnv \<Rightarrow> (string \<rightharpoonup> 'pkg) \<Rightarrow> string \<Rightarrow> string \<Rightarrow> bytes \<Rightarrow>
     (Archive option \<times> 'err option) \<times> (string \<rightharpoonup> 'pkg)" where
  "UnmarshalArchive env typesPackages filename id' data =
     (case asn1Unmarshal env data of
        Inl err \<Rightarrow> ((None, Some err), typesPackages)
      | Inr (rest, a) \<Rightarrow>
          (case ImportData env typesPackages filename id' (GcData a) of
             (typesPackages, Inl err) \<Rightarrow> ((None, Some err), typesPackages)
           | (typesPackages, Inr pkg) \<Rightarrow>
               ((Some a, None), typesPackages(pkgPath env pkg \<mapsto> pkg))))"

text \<open>
  A decoder and an importer for the examples: the decoder accepts two inputs, one carrying
  type data that the importer resolves and one carrying type data that it rejects.
\<close>

definition sampleArchiveEnv :: "(string, string) archiveEnv" where
  "sampleArchiveEnv =
     \<lparr>asn1Unmarshal = (\<lambda>data.
        if data = ''A'' then Inr ([], archiveWith ''p'' [] \<lparr>GcData := ''types of p''\<rparr>)
        else if data = ''B'' then Inr (''trailing'', archiveWith ''q'' [] \<lparr>GcData := ''types of q, using r''\<rparr>)
        else Inl ''asn1: syntax error''),
      ImportData = (\<lambda>imports filename id' gc.
        if gc = ''types of p'' then (imports, Inr id')
        else (imports, Inl (''cannot find import: r''))),
      pkgPath = (\<lambda>pkg. pkg)\<rparr>"

section \<open>Properties of SourceMapFilter.Write\<close>

declare cookiesComplete.simps [simp del] WriteLoop.simps [simp del] countLines.simps [simp del]

lemma cookiesComplete_None: "IndexByte p sentinel = None \<Longrightarrow> cookiesComplete p"
  by (subst cookiesComplete.simps) simp

lemma cookiesComplete_Some:
  "IndexByte p sentinel = Some i \<Longrightarrow>
     cookiesComplete p \<longleftrightarrow> i + 5 \<le> length p \<and> cookiesComplete (drop (i + 5) p)"
  by (subst cookiesComplete.simps) simp

lemma IndexByte_None_iff: "IndexByte p c = None \<longleftrightarrow> c \<notin> set p"
  by (induction p) auto

lemma IndexByte_Some_split:
  "IndexByte p c = Some i \<Longrightarrow> p = take i p @ c # drop (Suc i) p \<and> c \<notin> set (take i p)"
proof (induction p arbitrary: i)
  case Nil
  then show ?case by simp
next
  case (Cons b bs)
  show ?case
  proof (cases "b = c")
    case True
    with Cons.prems show ?thesis by simp
  next
    case False
    with Cons.prems obtain j where j: "IndexByte bs c = Some j" "i = Suc j"
      by auto
    from Cons.IH [OF j(1)] False j(2) show ?thesis by simp
  qed
qed

lemma IndexByte_append: "c \<notin> set w \<Longrightarrow> IndexByte (w @ c # r) c = Some (length w)"
  by (induction w) auto

lemma countLines_Nil: "countLines (l, c) [] = (l, c)"
  by (simp add: countLines.simps)

lemma countLines_unfold_Cons:
  "countLines (l, c) (b # w) =
     (case IndexByte (b # w) newline of
        None \<Rightarrow> (l, c + length (b # w))
      | Some i \<Rightarrow> countLines (l + 1, 0) (drop (i + 1) (b # w)))"
  by (rule countLines.simps)

lemma countLines_Cons:
  "countLines (l, c) (b # w) = countLines (if b = newline then (l + 1, 0) else (l, c + 1)) w"
proof (cases "b = newline")
  case True
  then show ?thesis by (simp add: countLines_unfold_Cons)
next
  case False
  then show ?thesis
    by (cases "IndexByte w newline")
      (simp_all add: countLines_unfold_Cons countLines.simps [of _ _ w])
qed

lemma scanSpec_plain:
  "sentinel \<notin> set w \<Longrightarrow> scanSpec f (w @ r) = scanSpec (advance (f\<lparr>Writer := Writer f @ w\<rparr>) w) r"
proof (induction w arbitrary: f)
  case Nil
  then show ?case by (simp add: advance_def countLines_Nil)
next
  case (Cons b w)
  from Cons.prems have b: "b \<noteq> sentinel" and w: "sentinel \<notin> set w"
    by auto
  let ?f' = "f\<lparr>Writer := Writer f @ [b],
                line := (if b = newline then line f + 1 else line f),
                column := (if b = newline then 0 else column f + 1)\<rparr>"
  have "scanSpec f ((b # w) @ r) = scanSpec ?f' (w @ r)"
    using b by simp
  also have "\<dots> = scanSpec (advance (?f'\<lparr>Writer := Writer ?f' @ w\<rparr>) w) r"
    by (rule Cons.IH [OF w])
  also have "advance (?f'\<lparr>Writer := Writer ?f' @ w\<rparr>) w
               = advance (f\<lparr>Writer := Writer f @ b # w\<rparr>) (b # w)"
    by (simp add: advance_def countLines_Cons split: prod.splits)
  finally show ?case .
qed

lemma WriteLoop_scan:
  "cookiesComplete p \<Longrightarrow> WriteLoop bufferWrite f p spare n = Inr (n + length p, None, scanSpec f p)"
proof (induction p arbitrary: f n rule: length_induct)
  case (1 p)
  show ?case
  proof (cases "IndexByte p sentinel")
    case None
    then have "sentinel \<notin> set p" by (simp add: IndexByte_None_iff)
    from scanSpec_plain [OF this, of f "[]"] None show ?thesis
      by (subst WriteLoop.simps) (simp add: bufferWrite_def)
  next
    case (Some i)
    from "1.prems" Some have len: "i + 5 \<le> length p" and rest: "cookiesComplete (drop (i + 5) p)"
      by (simp_all add: cookiesComplete_Some)
    from IndexByte_Some_split [OF Some]
    have p: "p = take i p @ sentinel # drop (Suc i) p" and plain: "sentinel \<notin> set (take i p)"
      by simp_all
    let ?f1 = "advance (f\<lparr>Writer := Writer f @ take i p\<rparr>) (take i p)"
    let ?f2 = "if MappingCallback ?f1
               then ?f1\<lparr>calls := calls ?f1 @
                      [(line ?f1 + 1, column ?f1, fileSet ?f1, Uint32 (take 4 (drop (i + 1) p)))]\<rparr>
               else ?f1"
    have shorter: "length (drop (i + 5) p) < length p"
      using len by simp
    have IH: "WriteLoop bufferWrite ?f2 (drop (i + 5) p) spare (n + i + 5)
                = Inr (n + i + 5 + length (drop (i + 5) p), None, scanSpec ?f2 (drop (i + 5) p))"
      using "1.IH" shorter rest by blast
    have cookie: "take 4 (drop (i + 1) (p @ spare)) = take 4 (drop (i + 1) p)"
      using len by simp
    have lhs: "WriteLoop bufferWrite f p spare n
                 = WriteLoop bufferWrite ?f2 (drop (i + 5) p) spare (n + i + 5)"
      using Some len cookie
      by (subst WriteLoop.simps) (simp add: bufferWrite_def Let_def min_def)
    have "scanSpec f p = scanSpec f (take i p @ sentinel # drop (Suc i) p)"
      using p by simp
    also have "\<dots> = scanSpec ?f1 (sentinel # drop (Suc i) p)"
      by (rule scanSpec_plain [OF plain])
    also have "\<dots> = scanSpec ?f2 (drop (i + 5) p)"
      by (simp add: add.commute)
    finally have rhs: "scanSpec f p = scanSpec ?f2 (drop (i + 5) p)" .
    show ?thesis
      using lhs IH rhs len by simp
  qed
qed


lemma cookiesComplete_plain: "sentinel \<notin> set p \<Longrightarrow> cookiesComplete p"
  by (simp add: cookiesComplete_None IndexByte_None_iff)

lemma cookiesComplete_plain_append:
  "sentinel \<notin> set w \<Longrightarrow> length c = 4 \<Longrightarrow>
     cookiesComplete (w @ sentinel # c @ r) \<longleftrightarrow> cookiesComplete r"
  by (simp add: cookiesComplete_Some [OF IndexByte_append])

lemma scanSpec_sentinel:
  "length c = 4 \<Longrightarrow>
     scanSpec f (sentinel # c @ r) =
       scanSpec (if MappingCallback f
             then f\<lparr>calls := calls f @ [(line f + 1, column f, fileSet f, Uint32 c)]\<rparr>
             else f) r"
  by simp

lemma scanSpec_append: "cookiesComplete p \<Longrightarrow> scanSpec f (p @ q) = scanSpec (scanSpec f p) q"
proof (induction p arbitrary: f rule: length_induct)
  case (1 p)
  show ?case
  proof (cases "IndexByte p sentinel")
    case None
    then have plain: "sentinel \<notin> set p" by (simp add: IndexByte_None_iff)
    from scanSpec_plain [OF plain, of f q] scanSpec_plain [OF plain, of f "[]"]
    show ?thesis by simp
  next
    case (Some i)
    from "1.prems" Some have len: "i + 5 \<le> length p" and rest: "cookiesComplete (drop (i + 5) p)"
      by (simp_all add: cookiesComplete_Some)
    from IndexByte_Some_split [OF Some]
    have plain: "sentinel \<notin> set (take i p)" by simp
    define w where "w = take i p"
    define c where "c = take 4 (drop (Suc i) p)"
    define r where "r = drop (i + 5) p"
    have e: "drop 4 (drop (Suc i) p) = r"
      unfolding r_def by (simp add: add.commute)
    have "drop (Suc i) p = c @ r"
      unfolding c_def e [symmetric] by (rule append_take_drop_id [symmetric])
    with IndexByte_Some_split [OF Some] have p: "p = w @ sentinel # c @ r"
      unfolding w_def by simp
    have c: "length c = 4" unfolding c_def using len by simp
    have shorter: "length r < length p" unfolding r_def using len by simp
    have w: "sentinel \<notin> set w" using plain by (simp add: w_def)
    have r: "cookiesComplete r" using rest by (simp add: r_def)
    let ?f1 = "advance (f\<lparr>Writer := Writer f @ w\<rparr>) w"
    let ?f2 = "if MappingCallback ?f1
               then ?f1\<lparr>calls := calls ?f1 @ [(line ?f1 + 1, column ?f1, fileSet ?f1, Uint32 c)]\<rparr>
               else ?f1"
    have A: "scanSpec f (w @ sentinel # c @ r @ q) = scanSpec ?f2 (r @ q)"
      using scanSpec_plain [OF w, of f "sentinel # c @ r @ q"] scanSpec_sentinel [OF c, of ?f1 "r @ q"]
      by simp
    have B: "scanSpec f (w @ sentinel # c @ r) = scanSpec ?f2 r"
      using scanSpec_plain [OF w, of f "sentinel # c @ r"] scanSpec_sentinel [OF c, of ?f1 r]
      by simp
    from "1.IH" shorter r have "scanSpec ?f2 (r @ q) = scanSpec (scanSpec ?f2 r) q"
      by blast
    with A B p show ?thesis by simp
  qed
qed

lemma Write_cookiesComplete:
  "cookiesComplete p \<Longrightarrow> Write bufferWrite f p spare = Inr (length p, None, scanSpec f p)"
  using WriteLoop_scan [of p f spare 0] by (simp add: Write_def)

lemma WriteSplit_cookiesComplete:
  assumes "cookiesComplete (take k p)" and "cookiesComplete (drop k p)" and "k \<le> length p"
  shows "WriteSplit bufferWrite f p k spare1 spare2 = Inr (length p, None, scanSpec f p)"
proof -
  have "scanSpec (scanSpec f (take k p)) (drop k p) = scanSpec f (take k p @ drop k p)"
    by (rule scanSpec_append [OF assms(1), symmetric])
  then show ?thesis
    using assms by (simp add: WriteSplit_def Write_cookiesComplete min_def)
qed

lemma Write_truncated:
  assumes "sentinel \<notin> set w" and "length c < 4"
  shows "Write bufferWrite f (w @ sentinel # c) spare = Inl SliceBoundsOutOfRange"
  using assms
  by (simp add: Write_def WriteLoop.simps [of _ _ "w @ sentinel # c"] IndexByte_append
      bufferWrite_def Let_def)

lemma split_cases:
  assumes pre: "sentinel \<notin> set pre" and post: "sentinel \<notin> set post"
    and cookie: "length cookie = 4"
  shows "k \<le> length pre \<or> length pre + 5 \<le> k \<Longrightarrow>
           cookiesComplete (take k (pre @ sentinel # cookie @ post)) \<and>
           cookiesComplete (drop k (pre @ sentinel # cookie @ post))"
proof (elim disjE)
  assume k: "k \<le> length pre"
  have "sentinel \<notin> set (take k pre)"
    using pre by (auto dest: in_set_takeD)
  then have A: "cookiesComplete (take k (pre @ sentinel # cookie @ post))"
    using k by (simp add: cookiesComplete_plain)
  have "sentinel \<notin> set (drop k pre)"
    using pre by (auto dest: in_set_dropD)
  then have "cookiesComplete (drop k pre @ sentinel # cookie @ post)"
    using cookie post by (simp add: cookiesComplete_plain_append cookiesComplete_plain)
  with A k show ?thesis by simp
next
  assume k: "length pre + 5 \<le> k"
  define j where "j = k - (5 + length pre)"
  have tk: "take k (pre @ sentinel # cookie @ post) = pre @ sentinel # cookie @ take j post"
    using k cookie by (simp add: j_def take_Cons')
  have dk: "drop k (pre @ sentinel # cookie @ post) = drop j post"
    using k cookie by (simp add: j_def drop_Cons')
  have "sentinel \<notin> set (take j post)" "sentinel \<notin> set (drop j post)"
    using post by (auto dest: in_set_takeD in_set_dropD)
  then show ?thesis
    unfolding tk dk
    using pre cookie by (simp add: cookiesComplete_plain_append cookiesComplete_plain)
qed

lemma split_inside:
  assumes k: "length pre < k" "k < length pre + 5" and cookie: "length cookie = 4"
  shows "\<exists>c. take k (pre @ sentinel # cookie @ post) = pre @ sentinel # c \<and> length c < 4"
proof -
  define j where "j = k - Suc (length pre)"
  have "take k (pre @ sentinel # cookie @ post) = pre @ sentinel # take j cookie"
    using k cookie by (simp add: j_def take_Cons')
  moreover have "length (take j cookie) < 4"
    using k cookie by (simp add: j_def)
  ultimately show ?thesis by blast
qed

lemma scanSpec_plain_all:
  "sentinel \<notin> set w \<Longrightarrow> scanSpec f w = advance (f\<lparr>Writer := Writer f @ w\<rparr>) w"
  using scanSpec_plain [of w f "[]"] by simp

lemma scanSpec_pair:
  assumes pre: "sentinel \<notin> set pre" and post: "sentinel \<notin> set post"
    and cookie: "length cookie = 4"
  shows "scanSpec f (pre @ sentinel # cookie @ post) =
     (let f1 = advance (f\<lparr>Writer := Writer f @ pre\<rparr>) pre;
          f2 = (if MappingCallback f1
                then f1\<lparr>calls := calls f1 @ [(line f1 + 1, column f1, fileSet f1, Uint32 cookie)]\<rparr>
                else f1)
      in advance (f2\<lparr>Writer := Writer f2 @ post\<rparr>) post)"
  using scanSpec_plain [OF pre, of f "sentinel # cookie @ post"]
    scanSpec_sentinel [OF cookie, of "advance (f\<lparr>Writer := Writer f @ pre\<rparr>) pre" post]
  by (simp add: Let_def scanSpec_plain_all [OF post])

text \<open>
  C3. A single \<open>Write\<close> whose buffer holds every sentinel together with its four cookie
  bytes, on a writer that accepts all bytes, returns \<open>(len(p), nil)\<close> and leaves the filter
  in the state of the byte-by-byte scan: every ordinary byte forwarded in order, a newline
  incrementing the line and resetting the column, any other byte incrementing the column,
  each sentinel and its cookie dropped, and (when the callback is set) one invocation per
  pair with \<open>(line + 1, column, cookie)\<close> as they stand when the sentinel is reached.
\<close>

theorem Write_scanSpec:
  assumes "cookiesComplete p"
  shows "Write bufferWrite f p spare = Inr (length p, None, scanSpec f p)"
  using assms by (rule Write_cookiesComplete)

theorem Write_scanSpec_witness:
  "cookiesComplete (''ab'' @ [newline] @ ''c'' @ [sentinel, CHR 0x00, CHR 0x00, CHR 0x01, CHR 0x02] @ ''d'') \<and>
   Write bufferWrite
     \<lparr>Writer = [], MappingCallback = True, line = 0, column = 0, fileSet = None :: unit option, calls = []\<rparr>
     (''ab'' @ [newline] @ ''c'' @ [sentinel, CHR 0x00, CHR 0x00, CHR 0x01, CHR 0x02] @ ''d'') []
   = Inr (10, None,
       \<lparr>Writer = ''ab'' @ [newline] @ ''cd'', MappingCallback = True, line = 1, column = 2,
        fileSet = None, calls = [(2, 1, None, 258)]\<rparr>)"
proof -
  let ?p = "''ab'' @ [newline] @ ''c'' @ [sentinel, CHR 0x00, CHR 0x00, CHR 0x01, CHR 0x02] @ ''d''"
  let ?f = "\<lparr>Writer = [], MappingCallback = True, line = 0, column = 0,
              fileSet = None :: unit option, calls = []\<rparr>"
  have c: "cookiesComplete ?p"
    by (simp add: cookiesComplete.simps sentinel_def newline_def)
  show ?thesis
    using c Write_scanSpec [OF c, of ?f "[]"]
    by (simp add: sentinel_def newline_def)
qed

text \<open>
  C1, as stated, fails: cut between the sentinel and the end of its cookie, the first of
  the two calls panics (slice bounds out of range), while the single call succeeds and
  reports the cookie.
\<close>

theorem Write_split_counterexample:
  "WriteSplit bufferWrite
     \<lparr>Writer = [], MappingCallback = True, line = 0, column = 0, fileSet = None :: unit option, calls = []\<rparr>
     [sentinel, CHR 0x00, CHR 0x00, CHR 0x00, CHR 0x07] 2 [] []
   = Inl SliceBoundsOutOfRange \<and>
   Write bufferWrite
     \<lparr>Writer = [], MappingCallback = True, line = 0, column = 0, fileSet = None :: unit option, calls = []\<rparr>
     [sentinel, CHR 0x00, CHR 0x00, CHR 0x00, CHR 0x07] []
   = Inr (5, None,
       \<lparr>Writer = [], MappingCallback = True, line = 0, column = 0, fileSet = None, calls = [(1, 0, None, 7)]\<rparr>)"
  by (simp add: WriteSplit_def Write_def WriteLoop.simps bufferWrite_def advance_def
      countLines.simps sentinel_def newline_def)

text \<open>
  C1, amended. For a buffer \<open>pre @ sentinel # cookie @ post\<close> with one sentinel and cookie
  pair, written to a writer that accepts all bytes: cut at a boundary \<open>k\<close> that is not
  strictly inside the pair, the two calls give what the single call gives (the same count,
  the same forwarded bytes \<open>pre @ post\<close>, the same position and the same single callback
  invocation with the line and column after \<open>pre\<close> and the cookie); cut after the sentinel
  and before the end of its cookie, the first call panics, whatever the capacity of its
  slice: the filter keeps no partial cookie between calls.
\<close>

theorem Write_split_outside_pair:
  assumes pre: "sentinel \<notin> set pre" and post: "sentinel \<notin> set post"
    and cookie: "length cookie = 4"
    and p: "p = pre @ sentinel # cookie @ post" and k: "k \<le> length p"
  shows "(k \<le> length pre \<or> length pre + 5 \<le> k \<longrightarrow>
            WriteSplit bufferWrite f p k spare1 spare2 = Write bufferWrite f p spare) \<and>
         (length pre < k \<and> k < length pre + 5 \<longrightarrow>
            WriteSplit bufferWrite f p k spare1 spare2 = Inl SliceBoundsOutOfRange) \<and>
         Write bufferWrite f p spare =
           Inr (length p, None,
             (let f1 = advance (f\<lparr>Writer := Writer f @ pre\<rparr>) pre;
                  f2 = (if MappingCallback f1
                        then f1\<lparr>calls := calls f1 @
                               [(line f1 + 1, column f1, fileSet f1, Uint32 cookie)]\<rparr>
                        else f1)
              in advance (f2\<lparr>Writer := Writer f2 @ post\<rparr>) post))"
proof (intro conjI impI)
  have whole: "cookiesComplete p"
    using pre post cookie by (simp add: p cookiesComplete_plain_append cookiesComplete_plain)
  show one: "Write bufferWrite f p spare =
           Inr (length p, None,
             (let f1 = advance (f\<lparr>Writer := Writer f @ pre\<rparr>) pre;
                  f2 = (if MappingCallback f1
                        then f1\<lparr>calls := calls f1 @
                               [(line f1 + 1, column f1, fileSet f1, Uint32 cookie)]\<rparr>
                        else f1)
              in advance (f2\<lparr>Writer := Writer f2 @ post\<rparr>) post))"
    using Write_cookiesComplete [OF whole, of f spare] scanSpec_pair [OF pre post cookie, of f]
    by (simp only: p)
  {
    assume "k \<le> length pre \<or> length pre + 5 \<le> k"
    from split_cases [OF pre post cookie this]
    have "cookiesComplete (take k p)" "cookiesComplete (drop k p)"
      by (simp_all add: p)
    from WriteSplit_cookiesComplete [OF this k, of f spare1 spare2]
      Write_cookiesComplete [OF whole, of f spare]
    show "WriteSplit bufferWrite f p k spare1 spare2 = Write bufferWrite f p spare"
      by simp
  }
  {
    assume "length pre < k \<and> k < length pre + 5"
    then obtain c where c: "take k p = pre @ sentinel # c" "length c < 4"
      using split_inside [OF _ _ cookie, of pre k post] by (auto simp: p)
    show "WriteSplit bufferWrite f p k spare1 spare2 = Inl SliceBoundsOutOfRange"
      by (simp add: WriteSplit_def c(1) Write_truncated [OF pre c(2)])
  }
qed

theorem Write_split_outside_pair_witness:
  "WriteSplit bufferWrite
     \<lparr>Writer = [], MappingCallback = True, line = 0, column = 0, fileSet = None :: unit option, calls = []\<rparr>
     (''ab'' @ sentinel # [CHR 0x00, CHR 0x00, CHR 0x00, CHR 0x07] @ ''c'') 1 [] []
   = Write bufferWrite
     \<lparr>Writer = [], MappingCallback = True, line = 0, column = 0, fileSet = None :: unit option, calls = []\<rparr>
     (''ab'' @ sentinel # [CHR 0x00, CHR 0x00, CHR 0x00, CHR 0x07] @ ''c'') [] \<and>
   WriteSplit bufferWrite
     \<lparr>Writer = [], MappingCallback = True, line = 0, column = 0, fileSet = None :: unit option, calls = []\<rparr>
     (''ab'' @ sentinel # [CHR 0x00, CHR 0x00, CHR 0x00, CHR 0x07] @ ''c'') 4 [] []
   = Inl SliceBoundsOutOfRange \<and>
   Write bufferWrite
     \<lparr>Writer = [], MappingCallback = True, line = 0, column = 0, fileSet = None :: unit option, calls = []\<rparr>
     (''ab'' @ sentinel # [CHR 0x00, CHR 0x00, CHR 0x00, CHR 0x07] @ ''c'') []
   = Inr (8, None,
       \<lparr>Writer = ''abc'', MappingCallback = True, line = 0, column = 3, fileSet = None,
        calls = [(1, 2, None, 7)]\<rparr>)"
proof -
  let ?f = "\<lparr>Writer = [], MappingCallback = True, line = 0, column = 0,
              fileSet = None :: unit option, calls = []\<rparr>"
  let ?c = "[CHR 0x00, CHR 0x00, CHR 0x00, CHR 0x07]"
  have h: "sentinel \<notin> set ''ab''" "sentinel \<notin> set ''c''" "length ?c = 4"
    by (simp_all add: sentinel_def)
  note t = Write_split_outside_pair [OF h refl, of _ ?f "[]" "[]" "[]"]
  have "(1::nat) \<le> length (''ab'' @ sentinel # ?c @ ''c'')"
    and "(4::nat) \<le> length (''ab'' @ sentinel # ?c @ ''c'')"
    by simp_all
  from t [OF this(1)] t [OF this(2)] show ?thesis
    by (simp add: advance_def countLines.simps newline_def)
qed

section \<open>Properties of dead code elimination\<close>

subsection \<open>removeFilter\<close>

lemma filterIndex_None: "filterIndex fs name = None \<longleftrightarrow> name \<notin> set fs"
  by (induction fs) auto

lemma filterIndex_Some: "filterIndex fs name = Some i \<Longrightarrow> i < length fs \<and> fs ! i = name"
  by (induction fs arbitrary: i) (auto split: if_splits)

lemma last_update_last: "fs \<noteq> [] \<Longrightarrow> last (fs[i := last fs]) = last fs"
  by (cases "i = length fs - 1") (simp_all add: last_conv_nth nth_list_update)

lemma mset_butlast_last: "xs \<noteq> [] \<Longrightarrow> mset (butlast xs) = mset xs - {#last xs#}"
  by (induction xs) auto

lemma mset_removeFilter: "mset (removeFilter name fs) = mset fs - {#name#}"
proof (cases "filterIndex fs name")
  case None
  then have "name \<notin> set fs" by (simp add: filterIndex_None)
  with None show ?thesis
    by (simp add: removeFilter_def)
next
  case (Some i)
  from filterIndex_Some [OF Some] have i: "i < length fs" "fs ! i = name"
    by simp_all
  then have ne: "fs \<noteq> []" by auto
  let ?u = "fs[i := last fs]"
  have "?u \<noteq> []" using ne by simp
  then have "mset (butlast ?u) = mset ?u - {#last fs#}"
    using last_update_last [OF ne, of i] by (simp add: mset_butlast_last)
  also have "mset ?u = add_mset (last fs) (mset fs - {#name#})"
    using i by (simp add: mset_update)
  finally show ?thesis
    using Some by (simp add: removeFilter_def)
qed

lemma removeFilter_Nil: "removeFilter name [] = []"
  by (simp add: removeFilter_def)

subsection \<open>The store\<close>

lemma setFilters_invalid: "\<not> validRef pkgs r \<Longrightarrow> setFilters pkgs r fs = pkgs"
proof (cases "fst r < length pkgs")
  case False
  then have "length pkgs \<le> fst r" by simp
  then show ?thesis unfolding setFilters_def by (rule list_update_beyond)
next
  case True
  assume "\<not> validRef pkgs r"
  with True have "length (Declarations (pkgs ! fst r)) \<le> snd r"
    by (simp add: validRef_def)
  then have "(Declarations (pkgs ! fst r))[snd r := (getDecl pkgs r)\<lparr>DceFilters := fs\<rparr>]
      = Declarations (pkgs ! fst r)"
    by (rule list_update_beyond)
  then show ?thesis
    by (simp add: setFilters_def)
qed

lemma validRef_setFilters [simp]: "validRef (setFilters pkgs r fs) r' = validRef pkgs r'"
  by (cases "fst r' = fst r") (auto simp: validRef_def setFilters_def)

lemma filtersOf_setFilters_same:
  "validRef pkgs r \<Longrightarrow> filtersOf (setFilters pkgs r fs) r = fs"
  by (simp add: filtersOf_def getDecl_def setFilters_def validRef_def)

lemma getDecl_setFilters_other:
  "r' \<noteq> r \<Longrightarrow> getDecl (setFilters pkgs r fs) r' = getDecl pkgs r'"
proof (cases "validRef pkgs r")
  case False
  then show ?thesis by (simp add: setFilters_invalid)
next
  case True
  assume ne: "r' \<noteq> r"
  show ?thesis
  proof (cases "fst r' = fst r")
    case False
    then show ?thesis
      by (simp add: getDecl_def setFilters_def)
  next
    case same: True
    with ne have "snd r' \<noteq> snd r" by (auto simp: prod_eq_iff)
    with same True show ?thesis
      by (simp add: getDecl_def setFilters_def validRef_def)
  qed
qed

lemma filtersOf_setFilters_other:
  "r' \<noteq> r \<Longrightarrow> filtersOf (setFilters pkgs r fs) r' = filtersOf pkgs r'"
  by (simp add: filtersOf_def getDecl_setFilters_other)

lemma eraseFilters_setFilters [simp]: "eraseFilters (setFilters pkgs r fs) = eraseFilters pkgs"
proof (cases "validRef pkgs r")
  case False
  then show ?thesis by (simp add: setFilters_invalid)
next
  case True
  then have i: "fst r < length pkgs" and j: "snd r < length (Declarations (pkgs ! fst r))"
    by (simp_all add: validRef_def)
  have "map (\<lambda>d. d\<lparr>DceFilters := []\<rparr>)
          ((Declarations (pkgs ! fst r))[snd r := (getDecl pkgs r)\<lparr>DceFilters := fs\<rparr>])
        = map (\<lambda>d. d\<lparr>DceFilters := []\<rparr>) (Declarations (pkgs ! fst r))"
    using j by (simp add: map_update getDecl_def list_update_same_conv)
  then show ?thesis
    using i by (simp add: eraseFilters_def setFilters_def map_update list_update_same_conv)
qed

lemma eraseFilters_length: "eraseFilters S = eraseFilters S0 \<Longrightarrow> length S = length S0"
  unfolding eraseFilters_def by (rule map_eq_imp_length_eq)

lemma eraseFilters_nth:
  assumes "eraseFilters S = eraseFilters S0" and "i < length S0"
  shows "ImportPath (S ! i) = ImportPath (S0 ! i)"
    and "map (\<lambda>d. d\<lparr>DceFilters := []\<rparr>) (Declarations (S ! i))
           = map (\<lambda>d. d\<lparr>DceFilters := []\<rparr>) (Declarations (S0 ! i))"
proof -
  let ?e = "\<lambda>a. a\<lparr>Declarations := map (\<lambda>d. d\<lparr>DceFilters := []\<rparr>) (Declarations a)\<rparr>"
  from assms(2) eraseFilters_length [OF assms(1)] have l: "i < length S" by simp
  from assms(1) have "map ?e S ! i = map ?e S0 ! i"
    unfolding eraseFilters_def by (rule arg_cong)
  with l assms(2) have e: "?e (S ! i) = ?e (S0 ! i)"
    by (simp only: nth_map)
  have "ImportPath (?e (S ! i)) = ImportPath (?e (S0 ! i))"
    by (rule arg_cong [OF e])
  then show "ImportPath (S ! i) = ImportPath (S0 ! i)" by simp
  have "Declarations (?e (S ! i)) = Declarations (?e (S0 ! i))"
    by (rule arg_cong [OF e])
  then show "map (\<lambda>d. d\<lparr>DceFilters := []\<rparr>) (Declarations (S ! i))
           = map (\<lambda>d. d\<lparr>DceFilters := []\<rparr>) (Declarations (S0 ! i))" by simp
qed

lemma eraseFilters_validRef:
  assumes "eraseFilters S = eraseFilters S0"
  shows "validRef S r = validRef S0 r"
proof (cases "fst r < length S0")
  case True
  from eraseFilters_nth(2) [OF assms True]
  have "length (Declarations (S ! fst r)) = length (Declarations (S0 ! fst r))"
    by (rule map_eq_imp_length_eq)
  with True eraseFilters_length [OF assms] show ?thesis by (simp add: validRef_def)
next
  case False
  with eraseFilters_length [OF assms] show ?thesis by (simp add: validRef_def)
qed

lemma eraseFilters_depsOf:
  assumes "eraseFilters S = eraseFilters S0" and "validRef S0 r"
  shows "depsOf S r = depsOf S0 r"
proof -
  from assms(2) have i: "fst r < length S0" and j: "snd r < length (Declarations (S0 ! fst r))"
    by (simp_all add: validRef_def)
  from eraseFilters_nth(2) [OF assms(1) i]
  have m: "map (\<lambda>d. d\<lparr>DceFilters := []\<rparr>) (Declarations (S ! fst r))
           = map (\<lambda>d. d\<lparr>DceFilters := []\<rparr>) (Declarations (S0 ! fst r))" .
  then have l: "length (Declarations (S ! fst r)) = length (Declarations (S0 ! fst r))"
    by (rule map_eq_imp_length_eq)
  from m have "map (\<lambda>d. d\<lparr>DceFilters := []\<rparr>) (Declarations (S ! fst r)) ! snd r
           = map (\<lambda>d. d\<lparr>DceFilters := []\<rparr>) (Declarations (S0 ! fst r)) ! snd r"
    by (rule arg_cong)
  with j l have e: "(getDecl S r)\<lparr>DceFilters := []\<rparr> = (getDecl S0 r)\<lparr>DceFilters := []\<rparr>"
    by (simp only: nth_map getDecl_def)
  have "DceDeps ((getDecl S r)\<lparr>DceFilters := []\<rparr>) = DceDeps ((getDecl S0 r)\<lparr>DceFilters := []\<rparr>)"
    by (rule arg_cong [OF e])
  then show ?thesis by (simp add: depsOf_def)
qed

lemma eraseFilters_objectId:
  assumes "eraseFilters S = eraseFilters S0" and "validRef S0 r"
  shows "objectId S r f = objectId S0 r f"
  using eraseFilters_nth(1) [OF assms(1), of "fst r"] assms(2)
  by (simp add: objectId_def validRef_def)

subsection \<open>One consumed key\<close>

lemma unblock_step:
  assumes "validRef S d"
  shows "unblock name d (S, P) =
           (setFilters S d (removeFilter name (filtersOf S d)),
            if removeFilter name (filtersOf S d) = [] then P @ [d] else P)"
  by (simp add: unblock_def Let_def filtersOf_def)

lemma fold_unblock_all:
  "fold (unblock name) decls (S, P) = (S', P') \<Longrightarrow> \<forall>d \<in> set decls. validRef S d \<Longrightarrow>
     eraseFilters S' = eraseFilters S \<and>
     (\<forall>r. validRef S r \<longrightarrow>
        mset (filtersOf S' r) = mset (filtersOf S r) - replicate_mset (count_list decls r) name) \<and>
     set P' = set P \<union> {r \<in> set decls. filtersOf S' r = []}"
proof (induction decls arbitrary: S P)
  case Nil
  then show ?case by simp
next
  case (Cons d decls)
  let ?fs = "removeFilter name (filtersOf S d)"
  let ?S1 = "setFilters S d ?fs"
  let ?P1 = "if ?fs = [] then P @ [d] else P"
  from Cons.prems have d: "validRef S d" and rest: "\<forall>d \<in> set decls. validRef ?S1 d"
    by auto
  from Cons.prems(1) have f: "fold (unblock name) decls (?S1, ?P1) = (S', P')"
    by (simp add: unblock_step [OF d])
  note IH = Cons.IH [OF f rest]
  from IH have e: "eraseFilters S' = eraseFilters S" by simp
  have m: "mset (filtersOf S' r) =
             mset (filtersOf S r) - replicate_mset (count_list (d # decls) r) name"
    if r: "validRef S r" for r
  proof -
    from r have "validRef ?S1 r" by simp
    with IH have IH2: "mset (filtersOf S' r) =
                  mset (filtersOf ?S1 r) - replicate_mset (count_list decls r) name"
      by blast
    show ?thesis
    proof (cases "r = d")
      case True
      with IH2 d show ?thesis
        by (simp add: filtersOf_setFilters_same mset_removeFilter)
    next
      case False
      with IH2 show ?thesis
        by (simp add: filtersOf_setFilters_other)
    qed
  qed
  from IH have IH3: "set P' = set ?P1 \<union> {r \<in> set decls. filtersOf S' r = []}"
    by blast
  from m [OF d] have IH2: "mset (filtersOf S' d) = mset ?fs - replicate_mset (count_list decls d) name"
    by (simp add: mset_removeFilter)
  have p: "set P' = set P \<union> {r \<in> set (d # decls). filtersOf S' r = []}"
  proof (cases "?fs = []")
    case True
    with IH2 have "filtersOf S' d = []" by simp
    with IH3 True show ?thesis by auto
  next
    case False
    have "filtersOf S' d = [] \<Longrightarrow> d \<in> set decls"
    proof (rule ccontr)
      assume e: "filtersOf S' d = []" and "d \<notin> set decls"
      then have "count_list decls d = 0" by simp
      with IH2 e False show False by simp
    qed
    with IH3 False show ?thesis by auto
  qed
  from e m p show ?case by blast
qed

subsection \<open>Split\<close>

lemma Split_plain: "c \<notin> set f \<Longrightarrow> Split f c = [f]"
  by (induction f) auto

lemma Split_key: "c \<notin> set p \<Longrightarrow> c \<notin> set f \<Longrightarrow> Split (p @ c # f) c = [p, f]"
  by (induction p) (auto simp: Split_plain)

subsection \<open>The index built by the first loop\<close>

lemma map_of_addDecl: "map_of (addDecl m k d) = (map_of m)(k \<mapsto> declsOf m k @ [d])"
  by (simp add: addDecl_def declsOf_def update_conv')

lemma declsOf_addDecl:
  "declsOf (addDecl m k d) k' = (if k' = k then declsOf m k @ [d] else declsOf m k')"
  by (simp add: declsOf_def [of "addDecl m k d"] map_of_addDecl) (simp add: declsOf_def)

lemma wfMap_addDecl: "wfMap m \<Longrightarrow> wfMap (addDecl m k d)"
  by (simp add: wfMap_def map_of_addDecl)

lemma wfMap_declsOf: "wfMap m \<Longrightarrow> declsOf m k = [] \<longleftrightarrow> map_of m k = None"
  by (auto simp: wfMap_def declsOf_def split: option.splits)

lemma fold_addDecl:
  "count_list (declsOf (fold (\<lambda>f m. addDecl m (path @ CHR '':'' # f) r) fs m) k) r' =
     count_list (declsOf m k) r' +
       (if r' = r then count_list (map (\<lambda>f. path @ CHR '':'' # f) fs) k else 0)"
  by (induction fs arbitrary: m) (auto simp: declsOf_addDecl)

lemma fold_addDecl_wf:
  "wfMap m \<Longrightarrow> wfMap (fold (\<lambda>f m. addDecl m (path @ CHR '':'' # f) r) fs m)"
  by (induction fs arbitrary: m) (auto simp: wfMap_addDecl)

lemma indexDecl_snd:
  "snd (indexDecl path r d st) =
     fold (\<lambda>f m. addDecl m (path @ CHR '':'' # f) r) (DceFilters d) (snd st)"
  by (cases st) (simp add: indexDecl_def)

lemma indexDecl_fst:
  "fst (indexDecl path r d st) = fst st @ (if DceFilters d = [] then [r] else [])"
  by (cases st) (simp add: indexDecl_def)

lemma fold_indexDecl_count:
  "count_list (declsOf (snd (fold (\<lambda>j. indexDecl path (i, j) (decls ! j)) [0..<n] st)) k) r' =
     count_list (declsOf (snd st) k) r' +
       (if fst r' = i \<and> snd r' < n
        then count_list (map (\<lambda>f. path @ CHR '':'' # f) (DceFilters (decls ! snd r'))) k else 0)"
proof (induction n)
  case 0
  show ?case by simp
next
  case (Suc n)
  show ?case
    by (auto simp: Suc.IH indexDecl_snd fold_addDecl less_Suc_eq prod_eq_iff)
qed

lemma fold_indexDecl_wf:
  "wfMap (snd st) \<Longrightarrow>
     wfMap (snd (fold (\<lambda>j. indexDecl path (i, j) (decls ! j)) [0..<n] st))"
  by (induction n) (simp_all add: indexDecl_snd fold_addDecl_wf)

lemma fold_indexDecl_pending:
  "set (fst (fold (\<lambda>j. indexDecl path (i, j) (decls ! j)) [0..<n] st)) =
     set (fst st) \<union> {r. fst r = i \<and> snd r < n \<and> DceFilters (decls ! snd r) = []}"
proof (induction n)
  case 0
  show ?case by simp
next
  case (Suc n)
  show ?case
    by (auto simp: Suc.IH indexDecl_fst less_Suc_eq)
qed

lemma indexPkg_count:
  "count_list (declsOf (snd (indexPkg i (pkgs ! i) st)) k) r' =
     count_list (declsOf (snd st) k) r' +
       (if fst r' = i \<and> snd r' < length (Declarations (pkgs ! fst r'))
        then count_list (map (objectId pkgs r') (filtersOf pkgs r')) k else 0)"
proof -
  have o: "objectId pkgs r' = (\<lambda>f. ImportPath (pkgs ! fst r') @ CHR '':'' # f)"
    by (rule ext) (simp add: objectId_def)
  show ?thesis
    unfolding indexPkg_def fold_indexDecl_count o filtersOf_def getDecl_def by auto
qed

lemma indexPkg_wf: "wfMap (snd st) \<Longrightarrow> wfMap (snd (indexPkg i pkg st))"
  unfolding indexPkg_def by (rule fold_indexDecl_wf)

lemma indexPkg_pending:
  "set (fst (indexPkg i (pkgs ! i) st)) =
     set (fst st) \<union>
       {r. fst r = i \<and> snd r < length (Declarations (pkgs ! fst r)) \<and> filtersOf pkgs r = []}"
  unfolding indexPkg_def fold_indexDecl_pending filtersOf_def getDecl_def by auto

lemma fold_indexPkg_count:
  "count_list (declsOf (snd (fold (\<lambda>i. indexPkg i (pkgs ! i)) [0..<n] st)) k) r' =
     count_list (declsOf (snd st) k) r' +
       (if fst r' < n \<and> snd r' < length (Declarations (pkgs ! fst r'))
        then count_list (map (objectId pkgs r') (filtersOf pkgs r')) k else 0)"
proof (induction n)
  case 0
  show ?case by simp
next
  case (Suc n)
  show ?case
    by (auto simp: Suc.IH indexPkg_count less_Suc_eq)
qed

lemma fold_indexPkg_wf:
  "wfMap (snd st) \<Longrightarrow> wfMap (snd (fold (\<lambda>i. indexPkg i (pkgs ! i)) [0..<n] st))"
  by (induction n) (simp_all add: indexPkg_wf)

lemma fold_indexPkg_pending:
  "set (fst (fold (\<lambda>i. indexPkg i (pkgs ! i)) [0..<n] st)) =
     set (fst st) \<union>
       {r. fst r < n \<and> snd r < length (Declarations (pkgs ! fst r)) \<and> filtersOf pkgs r = []}"
proof (induction n)
  case 0
  show ?case by simp
next
  case (Suc n)
  show ?case
    by (auto simp: Suc.IH indexPkg_pending less_Suc_eq)
qed

lemma indexPkgs_correct:
  assumes "indexPkgs pkgs = (P0, M0)"
  shows "count_list (declsOf M0 k) r =
           (if validRef pkgs r then count_list (map (objectId pkgs r) (filtersOf pkgs r)) k else 0)"
    and "wfMap M0"
    and "set P0 = {r. validRef pkgs r \<and> filtersOf pkgs r = []}"
proof -
  have M0: "M0 = snd (fold (\<lambda>i. indexPkg i (pkgs ! i)) [0..<length pkgs] ([], []))"
    and P0: "P0 = fst (fold (\<lambda>i. indexPkg i (pkgs ! i)) [0..<length pkgs] ([], []))"
    using assms by (simp_all add: indexPkgs_def)
  show "count_list (declsOf M0 k) r =
           (if validRef pkgs r then count_list (map (objectId pkgs r) (filtersOf pkgs r)) k else 0)"
    unfolding M0 fold_indexPkg_count by (simp add: declsOf_def validRef_def)
  show "wfMap M0"
    unfolding M0 by (rule fold_indexPkg_wf) (simp add: wfMap_def)
  show "set P0 = {r. validRef pkgs r \<and> filtersOf pkgs r = []}"
    unfolding P0 fold_indexPkg_pending by (simp add: validRef_def)
qed

subsection \<open>Facts about the index\<close>

lemma isIndex_count:
  "isIndex S0 M0 \<Longrightarrow>
     count_list (declsOf M0 k) r =
       (if validRef S0 r then count_list (map (objectId S0 r) (filtersOf S0 r)) k else 0)"
  unfolding isIndex_def by blast

lemma isIndex_listed:
  assumes "isIndex S0 M0" and "validRef S0 r" and "f \<in> set (filtersOf S0 r)"
  shows "map_of M0 (objectId S0 r f) \<noteq> None"
proof -
  from assms(2) have "count_list (declsOf M0 (objectId S0 r f)) r
      = count_list (map (objectId S0 r) (filtersOf S0 r)) (objectId S0 r f)"
    by (simp add: isIndex_count [OF assms(1)])
  moreover have "objectId S0 r f \<in> set (map (objectId S0 r) (filtersOf S0 r))"
    using assms(3) by simp
  ultimately have "count_list (declsOf M0 (objectId S0 r f)) r \<noteq> 0"
    by (simp only: count_list_0_iff) simp
  then have "declsOf M0 (objectId S0 r f) \<noteq> []"
    by auto
  then show ?thesis
    by (cases "map_of M0 (objectId S0 r f)") (simp_all add: declsOf_def)
qed

lemma isIndex_member:
  assumes "isIndex S0 M0" and "map_of M0 k = Some decls" and "d \<in> set decls"
  shows "validRef S0 d \<and> (\<exists>f \<in> set (filtersOf S0 d). objectId S0 d f = k)"
proof -
  from assms(2) have "declsOf M0 k = decls" by (simp add: declsOf_def)
  with assms(3) have "count_list (declsOf M0 k) d \<noteq> 0"
    by (simp add: count_list_0_iff)
  then have v: "validRef S0 d"
    and "count_list (map (objectId S0 d) (filtersOf S0 d)) k \<noteq> 0"
    by (simp_all add: isIndex_count [OF assms(1)] split: if_splits)
  then have "k \<in> set (map (objectId S0 d) (filtersOf S0 d))"
    by (simp only: count_list_0_iff) simp
  with v show ?thesis by auto
qed

lemma noColon_Split:
  assumes "noColon S0" and "validRef S0 r" and "f \<in> set (filtersOf S0 r)"
  shows "Split (objectId S0 r f) (CHR '':'') = [ImportPath (S0 ! fst r), f]"
proof -
  from assms(2) have a: "S0 ! fst r \<in> set S0"
    and d: "getDecl S0 r \<in> set (Declarations (S0 ! fst r))"
    by (simp_all add: validRef_def getDecl_def)
  from assms(1) a have p: "CHR '':'' \<notin> set (ImportPath (S0 ! fst r))"
    by (simp add: noColon_def)
  from assms(1) a d assms(3) have f: "CHR '':'' \<notin> set f"
    unfolding noColon_def filtersOf_def by blast
  from Split_key [OF p f] show ?thesis by (simp add: objectId_def)
qed

lemma count_key:
  assumes uniq: "\<forall>f \<in> set fs. g f = dep \<longrightarrow> f = name"
  shows "count_list (map g fs) dep = (if g name = dep then count_list fs name else 0)"
  using assms
proof (induction fs)
  case Nil
  show ?case by simp
next
  case (Cons f fs)
  then have IH: "count_list (map g fs) dep = (if g name = dep then count_list fs name else 0)"
    by simp
  show ?case
  proof (cases "g f = dep")
    case True
    with Cons.prems have "f = name" by simp
    with True IH show ?thesis by simp
  next
    case False
    then have "g name = dep \<Longrightarrow> f \<noteq> name" by auto
    with False IH show ?thesis by simp
  qed
qed

lemma filter_step:
  assumes A: "mset F = filter_mset Q (mset F0)"
    and uniq: "\<forall>f \<in> set F0. g f = dep \<longrightarrow> f = name"
    and indom: "\<forall>f \<in> set F0. g f = dep \<longrightarrow> Q f"
  shows "mset F - replicate_mset (count_list (map g F0) dep) name
           = filter_mset (\<lambda>f. Q f \<and> g f \<noteq> dep) (mset F0)"
proof (rule multiset_eqI)
  fix y
  show "count (mset F - replicate_mset (count_list (map g F0) dep) name) y
          = count (filter_mset (\<lambda>f. Q f \<and> g f \<noteq> dep) (mset F0)) y"
  proof (cases "y \<in> set F0")
    case False
    then have c0: "count (mset F0) y = 0" by simp
    then have cF: "count (mset F) y = 0" by (simp add: A)
    have "count (mset F - replicate_mset (count_list (map g F0) dep) name) y = 0"
      unfolding count_diff cF by simp
    moreover have "count (filter_mset (\<lambda>f. Q f \<and> g f \<noteq> dep) (mset F0)) y = 0"
      unfolding count_filter_mset c0 by simp
    ultimately show ?thesis by (rule trans [OF _ sym])
  next
    case True
    show ?thesis
    proof (cases "g y = dep")
      case same: True
      with True uniq indom have "y = name" "Q y" by auto
      with same show ?thesis
        by (simp add: A count_key [OF uniq] count_mset)
    next
      case False
      then show ?thesis
        by (auto simp: A count_key [OF uniq] count_mset)
    qed
  qed
qed

lemma dceInv_frame: "dceInv S0 M0 todo (m, S, P) \<Longrightarrow> eraseFilters S = eraseFilters S0"
  unfolding dceInv_def by simp

lemma dceInv_map:
  "dceInv S0 M0 todo (m, S, P) \<Longrightarrow> map_of m k = None \<or> map_of m k = map_of M0 k"
  unfolding dceInv_def by simp

lemma dceInv_filters:
  "dceInv S0 M0 todo (m, S, P) \<Longrightarrow> validRef S0 r \<Longrightarrow>
     mset (filtersOf S r) =
       filter_mset (\<lambda>f. map_of m (objectId S0 r f) \<noteq> None) (mset (filtersOf S0 r))"
  unfolding dceInv_def by blast

lemma dceInv_pending:
  "dceInv S0 M0 todo (m, S, P) \<Longrightarrow> r \<in> set P \<Longrightarrow> validRef S0 r \<and> filtersOf S r = []"
  unfolding dceInv_def by blast

lemma dceInv_done:
  "dceInv S0 M0 todo (m, S, P) \<Longrightarrow> validRef S0 r \<Longrightarrow> filtersOf S r = [] \<Longrightarrow>
     r \<notin> set P \<Longrightarrow> dep \<in> set (depsOf S0 r) \<Longrightarrow> map_of m dep = None \<or> dep \<in> set todo"
  unfolding dceInv_def by blast

lemma dceInv_sound:
  "dceInv S0 M0 todo (m, S, P) \<Longrightarrow> map_of M0 k \<noteq> None \<Longrightarrow> map_of m k = None \<Longrightarrow>
     \<exists>r. live S0 r \<and> k \<in> set (depsOf S0 r)"
  unfolding dceInv_def by blast

lemma drained_live:
  assumes inv: "dceInv S0 M0 todo (m, S, P)" and ix: "isIndex S0 M0"
    and r: "validRef S0 r" and e: "filtersOf S r = []"
  shows "live S0 r"
proof (rule liveI [OF r], rule ballI)
  fix f assume f: "f \<in> set (filtersOf S0 r)"
  from dceInv_filters [OF inv r] e
  have "filter_mset (\<lambda>f. map_of m (objectId S0 r f) \<noteq> None) (mset (filtersOf S0 r)) = {#}"
    by simp
  with f have "map_of m (objectId S0 r f) = None"
    by auto
  with dceInv_sound [OF inv isIndex_listed [OF ix r f]]
  show "\<exists>r'. live S0 r' \<and> objectId S0 r f \<in> set (depsOf S0 r')"
    by simp
qed

subsection \<open>Consuming one key\<close>

lemma map_of_delete_None: "map_of (AList.delete k m) k' = None \<longleftrightarrow> k' = k \<or> map_of m k' = None"
  by (simp add: delete_conv')

lemma dceInvI:
  assumes "eraseFilters S = eraseFilters S0"
    and "\<And>k. map_of m k = None \<or> map_of m k = map_of M0 k"
    and "\<And>r. validRef S0 r \<Longrightarrow>
           mset (filtersOf S r) =
             filter_mset (\<lambda>f. map_of m (objectId S0 r f) \<noteq> None) (mset (filtersOf S0 r))"
    and "\<And>r. r \<in> set P \<Longrightarrow> validRef S0 r \<and> filtersOf S r = []"
    and "\<And>r dep. validRef S0 r \<Longrightarrow> filtersOf S r = [] \<Longrightarrow> r \<notin> set P \<Longrightarrow>
           dep \<in> set (depsOf S0 r) \<Longrightarrow> map_of m dep = None \<or> dep \<in> set todo"
    and "\<And>k. map_of M0 k \<noteq> None \<Longrightarrow> map_of m k = None \<Longrightarrow>
           \<exists>r. live S0 r \<and> k \<in> set (depsOf S0 r)"
  shows "dceInv S0 M0 todo (m, S, P)"
  unfolding dceInv_def prod.case
proof (intro conjI allI ballI impI)
  show "eraseFilters S = eraseFilters S0" by (rule assms(1))
  show "map_of m k = None \<or> map_of m k = map_of M0 k" for k by (rule assms(2))
  show "mset (filtersOf S r) =
             filter_mset (\<lambda>f. map_of m (objectId S0 r f) \<noteq> None) (mset (filtersOf S0 r))"
    if "validRef S0 r" for r by (rule assms(3) [OF that])
  show "validRef S0 r" if "r \<in> set P" for r using assms(4) [OF that] by simp
  show "filtersOf S r = []" if "r \<in> set P" for r using assms(4) [OF that] by simp
  show "map_of m dep = None \<or> dep \<in> set todo"
    if h: "validRef S0 r \<and> filtersOf S r = [] \<and> r \<notin> set P \<and> dep \<in> set (depsOf S0 r)" for r dep
    by (rule assms(5) [OF conjunct1 [OF h] conjunct1 [OF conjunct2 [OF h]]
          conjunct1 [OF conjunct2 [OF conjunct2 [OF h]]]
          conjunct2 [OF conjunct2 [OF conjunct2 [OF h]]]])
  show "\<exists>r. live S0 r \<and> k \<in> set (depsOf S0 r)"
    if "map_of M0 k \<noteq> None \<and> map_of m k = None" for k
    by (rule assms(6) [OF conjunct1 [OF that] conjunct2 [OF that]])
qed

lemma consume_key:
  assumes inv: "dceInv S0 M0 (dep # deps) (m, S, P)" and ix: "isIndex S0 M0" and nc: "noColon S0"
    and look: "map_of m dep = Some decls"
    and cur: "live S0 cur" "dep \<in> set (depsOf S0 cur)"
  shows "\<exists>a name. Split dep (CHR '':'') = [a, name] \<and>
           (\<forall>S1 P1. fold (unblock name) decls (S, P) = (S1, P1) \<longrightarrow>
              dceInv S0 M0 deps (AList.delete dep m, S1, P1))"
proof -
  from dceInv_map [OF inv, of dep] look have M: "map_of M0 dep = Some decls"
    by simp
  then have dO: "declsOf M0 dep = decls" by (simp add: declsOf_def)
  from ix M have "decls \<noteq> []" by (auto simp: isIndex_def wfMap_def)
  then obtain d0 where d0: "d0 \<in> set decls" by (cases decls) auto
  from isIndex_member [OF ix M d0] obtain f0 where
    v0: "validRef S0 d0" and f0: "f0 \<in> set (filtersOf S0 d0)" and k0: "objectId S0 d0 f0 = dep"
    by blast
  from noColon_Split [OF nc v0 f0] k0
  have sp: "Split dep (CHR '':'') = [ImportPath (S0 ! fst d0), f0]" by simp
  have uniq: "\<forall>f \<in> set (filtersOf S0 r). objectId S0 r f = dep \<longrightarrow> f = f0" if "validRef S0 r" for r
  proof (intro ballI impI)
    fix f assume "f \<in> set (filtersOf S0 r)" and "objectId S0 r f = dep"
    with noColon_Split [OF nc that, of f] sp show "f = f0" by simp
  qed
  note frame = dceInv_frame [OF inv]
  have valid: "validRef S r = validRef S0 r" for r
    by (rule eraseFilters_validRef [OF frame])
  have dv: "\<forall>d \<in> set decls. validRef S d"
    using isIndex_member [OF ix M] by (simp add: valid)
  have "dceInv S0 M0 deps (AList.delete dep m, S1, P1)"
    if fold: "fold (unblock f0) decls (S, P) = (S1, P1)" for S1 P1
  proof -
    note u = fold_unblock_all [OF fold dv]
    from u have frame1: "eraseFilters S1 = eraseFilters S0" by (simp add: frame)
    from u have P1: "set P1 = set P \<union> {r \<in> set decls. filtersOf S1 r = []}" by blast
    from u have um: "mset (filtersOf S1 r) =
          mset (filtersOf S r) - replicate_mset (count_list decls r) f0" if "validRef S0 r" for r
      using that unfolding valid by blast
    have filt1: "mset (filtersOf S1 r) =
        filter_mset (\<lambda>f. map_of (AList.delete dep m) (objectId S0 r f) \<noteq> None) (mset (filtersOf S0 r))"
      if r: "validRef S0 r" for r
    proof -
      from um [OF r] have "mset (filtersOf S1 r) =
          mset (filtersOf S r) - replicate_mset (count_list decls r) f0" .
      also have "count_list decls r = count_list (map (objectId S0 r) (filtersOf S0 r)) dep"
        using isIndex_count [OF ix, of dep r] r by (simp add: dO)
      also have "mset (filtersOf S r) -
            replicate_mset (count_list (map (objectId S0 r) (filtersOf S0 r)) dep) f0
          = filter_mset (\<lambda>f. map_of m (objectId S0 r f) \<noteq> None \<and> objectId S0 r f \<noteq> dep)
              (mset (filtersOf S0 r))"
        by (rule filter_step [OF dceInv_filters [OF inv r] uniq [OF r]]) (simp add: look)
      also have "\<dots> = filter_mset (\<lambda>f. map_of (AList.delete dep m) (objectId S0 r f) \<noteq> None)
              (mset (filtersOf S0 r))"
        by (rule filter_mset_cong) (auto simp: map_of_delete_None)
      finally show ?thesis .
    qed
    have keep: "filtersOf S1 r = []" if "validRef S0 r" "filtersOf S r = []" for r
    proof -
      from um [OF that(1)] that(2) have "mset (filtersOf S1 r) = {#}" by simp
      then show ?thesis by simp
    qed
    have new: "r \<in> set decls" if "validRef S0 r" "filtersOf S1 r = []" "filtersOf S r \<noteq> []" for r
    proof (rule ccontr)
      assume "r \<notin> set decls"
      then have "count_list decls r = 0" by simp
      with um [OF that(1)] have "mset (filtersOf S1 r) = mset (filtersOf S r)" by simp
      with that(2,3) show False by simp
    qed
    have pend1: "validRef S0 r \<and> filtersOf S1 r = []" if "r \<in> set P1" for r
    proof -
      from that P1 consider "r \<in> set P" | "r \<in> set decls" "filtersOf S1 r = []" by blast
      then show ?thesis
      proof cases
        case 1
        from dceInv_pending [OF inv 1] keep show ?thesis by blast
      next
        case 2
        with isIndex_member [OF ix M] show ?thesis by blast
      qed
    qed
    have done1: "map_of (AList.delete dep m) dep' = None \<or> dep' \<in> set deps"
      if r: "validRef S0 r" "filtersOf S1 r = []" "r \<notin> set P1" "dep' \<in> set (depsOf S0 r)" for r dep'
    proof -
      have "filtersOf S r = []"
      proof (rule ccontr)
        assume "filtersOf S r \<noteq> []"
        from new [OF r(1,2) this] r(2) P1 have "r \<in> set P1" by simp
        with r(3) show False by simp
      qed
      moreover from r(3) P1 have "r \<notin> set P" by simp
      ultimately have "map_of m dep' = None \<or> dep' \<in> set (dep # deps)"
        using dceInv_done [OF inv r(1) _ _ r(4)] by simp
      then show ?thesis by (auto simp: map_of_delete_None)
    qed
    have sound1: "\<exists>r. live S0 r \<and> k \<in> set (depsOf S0 r)"
      if "map_of M0 k \<noteq> None" "map_of (AList.delete dep m) k = None" for k
    proof (cases "k = dep")
      case True
      with cur show ?thesis by blast
    next
      case False
      with that dceInv_sound [OF inv, of k] show ?thesis by (simp add: map_of_delete_None)
    qed
    have map1: "map_of (AList.delete dep m) k = None \<or> map_of (AList.delete dep m) k = map_of M0 k" for k
      using dceInv_map [OF inv, of k] by (cases "k = dep") (simp_all add: delete_conv')
    show ?thesis
      by (rule dceInvI [OF frame1 map1 filt1 pend1 done1 sound1])
  qed
  with sp show ?thesis by blast
qed

lemma dceInv_skip:
  assumes "dceInv S0 M0 (dep # deps) (m, S, P)" and "map_of m dep = None"
  shows "dceInv S0 M0 deps (m, S, P)"
proof -
  have "map_of m dep' = None \<or> dep' \<in> set deps"
    if "validRef S0 r" "filtersOf S r = []" "r \<notin> set P" "dep' \<in> set (depsOf S0 r)" for r dep'
    using dceInv_done [OF assms(1) that] assms(2) by auto
  then show ?thesis
    by (intro dceInvI [OF dceInv_frame [OF assms(1)] dceInv_map [OF assms(1)]
          dceInv_filters [OF assms(1)] dceInv_pending [OF assms(1)] _ dceInv_sound [OF assms(1)]])
qed

subsection \<open>The loops\<close>

lemma processDeps_inv:
  assumes ix: "isIndex S0 M0" and nc: "noColon S0" and cur: "live S0 cur"
  shows "set deps \<subseteq> set (depsOf S0 cur) \<Longrightarrow> dceInv S0 M0 deps (m, S, P) \<Longrightarrow>
         \<exists>m' S' P'. processDeps deps (m, S, P) = Inr (m', S', P') \<and> dceInv S0 M0 [] (m', S', P')"
proof (induction deps arbitrary: m S P)
  case Nil
  then show ?case by simp
next
  case (Cons dep deps)
  from Cons.prems(1) have sub: "set deps \<subseteq> set (depsOf S0 cur)" and dep: "dep \<in> set (depsOf S0 cur)"
    by simp_all
  show ?case
  proof (cases "map_of m dep")
    case None
    from Cons.IH [OF sub dceInv_skip [OF Cons.prems(2) None]] None show ?thesis
      by simp
  next
    case (Some decls)
    from consume_key [OF Cons.prems(2) ix nc Some cur dep] obtain a name where
      sp: "Split dep (CHR '':'') = [a, name]"
      and step: "\<And>S1 P1. fold (unblock name) decls (S, P) = (S1, P1) \<Longrightarrow>
                  dceInv S0 M0 deps (AList.delete dep m, S1, P1)"
      by blast
    obtain S1 P1 where f: "fold (unblock name) decls (S, P) = (S1, P1)"
      by (cases "fold (unblock name) decls (S, P)")
    from Cons.IH [OF sub step [OF f]] Some sp f show ?thesis
      by simp
  qed
qed

lemma dceInv_pop:
  assumes inv: "dceInv S0 M0 [] (m, S, P)" and ne: "P \<noteq> []"
  shows "dceInv S0 M0 (depsOf S0 (last P)) (m, S, butlast P)"
proof (rule dceInvI [OF dceInv_frame [OF inv] dceInv_map [OF inv] dceInv_filters [OF inv]
      _ _ dceInv_sound [OF inv]])
  show "validRef S0 r \<and> filtersOf S r = []" if "r \<in> set (butlast P)" for r
    using dceInv_pending [OF inv in_set_butlastD [OF that]] .
  show "map_of m dep = None \<or> dep \<in> set (depsOf S0 (last P))"
    if r: "validRef S0 r" "filtersOf S r = []" "r \<notin> set (butlast P)" "dep \<in> set (depsOf S0 r)"
    for r dep
  proof (cases "r \<in> set P")
    case False
    from dceInv_done [OF inv r(1,2) False r(4)] show ?thesis by simp
  next
    case True
    with ne r(3) have "r = last P"
      by (cases P rule: rev_cases) auto
    with r(4) show ?thesis by simp
  qed
qed

lemma dceLoop_inv:
  assumes ix: "isIndex S0 M0" and nc: "noColon S0"
  shows "dceInv S0 M0 [] st \<Longrightarrow>
         \<exists>m' S'. dceLoop st = Inr (m', S') \<and> dceInv S0 M0 [] (m', S', [])"
proof (induction st rule: dceLoop.induct)
  case (1 m S P)
  show ?case
  proof (cases "P = []")
    case True
    with "1.prems" show ?thesis by simp
  next
    case False
    let ?d = "last P"
    from False have "?d \<in> set P" by simp
    from dceInv_pending [OF "1.prems" this] have v: "validRef S0 ?d" and e: "filtersOf S ?d = []"
      by simp_all
    from drained_live [OF "1.prems" ix v e] have lv: "live S0 ?d" .
    have deps: "DceDeps (getDecl S ?d) = depsOf S0 ?d"
      using eraseFilters_depsOf [OF dceInv_frame [OF "1.prems"] v] by (simp add: depsOf_def)
    from processDeps_inv [OF ix nc lv subset_refl dceInv_pop [OF "1.prems" False]]
    obtain m1 S1 P1 where
      p: "processDeps (depsOf S0 ?d) (m, S, butlast P) = Inr (m1, S1, P1)"
      and inv1: "dceInv S0 M0 [] (m1, S1, P1)"
      by blast
    from p deps have p': "processDeps (DceDeps (getDecl S ?d)) (m, S, butlast P) = Inr (m1, S1, P1)"
      by simp
    from "1.IH" [OF False p' inv1] False p' show ?thesis
      by simp
  qed
qed

lemma dceInv_initial:
  assumes "indexPkgs S0 = (P0, M0)"
  shows "isIndex S0 M0" and "dceInv S0 M0 [] (M0, S0, P0)"
proof -
  note c = indexPkgs_correct [OF assms]
  show ix: "isIndex S0 M0"
    unfolding isIndex_def using c(1,2) by blast
  show "dceInv S0 M0 [] (M0, S0, P0)"
  proof (rule dceInvI)
    show "mset (filtersOf S0 r) =
        filter_mset (\<lambda>f. map_of M0 (objectId S0 r f) \<noteq> None) (mset (filtersOf S0 r))"
      if "validRef S0 r" for r
    proof -
      have "filter_mset (\<lambda>f. map_of M0 (objectId S0 r f) \<noteq> None) (mset (filtersOf S0 r))
          = filter_mset (\<lambda>f. True) (mset (filtersOf S0 r))"
        by (rule filter_mset_cong) (use isIndex_listed [OF ix that] in auto)
      then show ?thesis by simp
    qed
    show "validRef S0 r \<and> filtersOf S0 r = []" if "r \<in> set P0" for r
      using that c(3) by simp
    show "map_of M0 dep = None \<or> dep \<in> set []"
      if "validRef S0 r" "filtersOf S0 r = []" "r \<notin> set P0" for r dep
      using that c(3) by simp
  qed simp_all
qed

lemma DCE_correct:
  assumes nc: "noColon pkgs"
  shows "\<exists>m' S'. DCE pkgs = Inr (m', S') \<and>
           eraseFilters S' = eraseFilters pkgs \<and>
           (\<forall>r. validRef pkgs r \<longrightarrow> (filtersOf S' r = [] \<longleftrightarrow> live pkgs r)) \<and>
           (\<forall>k. map_of m' k = None \<longleftrightarrow>
              map_of (snd (indexPkgs pkgs)) k = None \<or> (\<exists>r. live pkgs r \<and> k \<in> set (depsOf pkgs r)))"
proof -
  obtain P0 M0 where i: "indexPkgs pkgs = (P0, M0)"
    by (cases "indexPkgs pkgs")
  note ix = dceInv_initial(1) [OF i]
  from dceLoop_inv [OF ix nc dceInv_initial(2) [OF i]] obtain m' S' where
    run: "dceLoop (M0, pkgs, P0) = Inr (m', S')" and inv: "dceInv pkgs M0 [] (m', S', [])"
    by blast
  have valid: "validRef pkgs r" if "live pkgs r" for r
    using that by cases
  have drained: "filtersOf S' r = []" if "live pkgs r" for r
    using that
  proof induction
    case (liveI r)
    have "map_of m' (objectId pkgs r f) = None" if f: "f \<in> set (filtersOf pkgs r)" for f
    proof -
      from liveI(2) f obtain r' where r': "live pkgs r'" "filtersOf S' r' = []"
        "objectId pkgs r f \<in> set (depsOf pkgs r')"
        by blast
      from dceInv_done [OF inv valid [OF r'(1)] r'(2) _ r'(3)] show ?thesis by simp
    qed
    with dceInv_filters [OF inv liveI(1)] have "mset (filtersOf S' r) = {#}"
      by simp
    then show ?case by simp
  qed
  have A: "filtersOf S' r = [] \<longleftrightarrow> live pkgs r" if "validRef pkgs r" for r
    using drained_live [OF inv ix that] drained by blast
  have B: "map_of m' k = None \<longleftrightarrow>
        map_of M0 k = None \<or> (\<exists>r. live pkgs r \<and> k \<in> set (depsOf pkgs r))" for k
  proof
    assume "map_of m' k = None"
    with dceInv_sound [OF inv, of k]
    show "map_of M0 k = None \<or> (\<exists>r. live pkgs r \<and> k \<in> set (depsOf pkgs r))"
      by blast
  next
    assume "map_of M0 k = None \<or> (\<exists>r. live pkgs r \<and> k \<in> set (depsOf pkgs r))"
    then show "map_of m' k = None"
    proof
      assume "map_of M0 k = None"
      with dceInv_map [OF inv, of k] show ?thesis by auto
    next
      assume "\<exists>r. live pkgs r \<and> k \<in> set (depsOf pkgs r)"
      then obtain r where r: "live pkgs r" "k \<in> set (depsOf pkgs r)" by blast
      from dceInv_done [OF inv valid [OF r(1)] drained [OF r(1)] _ r(2)] show ?thesis by simp
    qed
  qed
  from run i have "DCE pkgs = Inr (m', S')" by (simp add: DCE_def)
  with dceInv_frame [OF inv] A B i show ?thesis by simp
qed

subsection \<open>The loop never panics\<close>

lemma Split_not_Nil: "Split k c \<noteq> []"
  by (induction k) (auto split: list.splits)

lemma Split_colon: "c \<in> set k \<Longrightarrow> \<exists>a b rest. Split k c = a # b # rest"
proof (induction k)
  case Nil
  then show ?case by simp
next
  case (Cons x k)
  show ?case
  proof (cases "x = c")
    case True
    with Split_not_Nil [of k c] show ?thesis by (cases "Split k c") auto
  next
    case False
    with Cons obtain a b rest where "Split k c = a # b # rest" by auto
    with False show ?thesis by simp
  qed
qed

lemma dceFrame_key:
  assumes fr: "dceFrame S0 M0 (m, S, P)" and ix: "isIndex S0 M0" and look: "map_of m dep = Some decls"
  shows "\<exists>a name rest. Split dep (CHR '':'') = a # name # rest \<and>
           (\<forall>S1 P1. fold (unblock name) decls (S, P) = (S1, P1) \<longrightarrow>
              dceFrame S0 M0 (AList.delete dep m, S1, P1))"
proof -
  from fr have frame: "eraseFilters S = eraseFilters S0"
    and mp: "\<And>k. map_of m k = None \<or> map_of m k = map_of M0 k"
    and sub: "\<And>r. validRef S0 r \<Longrightarrow> mset (filtersOf S r) \<subseteq># mset (filtersOf S0 r)"
    unfolding dceFrame_def by blast+
  from mp [of dep] look have M: "map_of M0 dep = Some decls" by simp
  from ix M have "decls \<noteq> []" by (auto simp: isIndex_def wfMap_def)
  then obtain d0 where d0: "d0 \<in> set decls" by (cases decls) auto
  from isIndex_member [OF ix M d0] have "CHR '':'' \<in> set dep"
    by (auto simp: objectId_def)
  from Split_colon [OF this] obtain a name rest where
    sp: "Split dep (CHR '':'') = a # name # rest" by blast
  have valid: "validRef S r = validRef S0 r" for r
    by (rule eraseFilters_validRef [OF frame])
  have dv: "\<forall>d \<in> set decls. validRef S d"
    using isIndex_member [OF ix M] by (simp add: valid)
  have "dceFrame S0 M0 (AList.delete dep m, S1, P1)"
    if fold: "fold (unblock name) decls (S, P) = (S1, P1)" for S1 P1
  proof -
    note u = fold_unblock_all [OF fold dv]
    from u have frame1: "eraseFilters S1 = eraseFilters S0" by (simp add: frame)
    from u have um: "mset (filtersOf S1 r) =
          mset (filtersOf S r) - replicate_mset (count_list decls r) name" if "validRef S0 r" for r
      using that unfolding valid by blast
    have sub1: "mset (filtersOf S1 r) \<subseteq># mset (filtersOf S0 r)" if "validRef S0 r" for r
      unfolding um [OF that] using sub [OF that]
      by (meson diff_subset_eq_self subset_mset.order_trans)
    have map1: "map_of (AList.delete dep m) k = None \<or> map_of (AList.delete dep m) k = map_of M0 k" for k
      using mp [of k] by (cases "k = dep") (simp_all add: delete_conv')
    show ?thesis
      unfolding dceFrame_def prod.case using frame1 map1 sub1 by blast
  qed
  with sp show ?thesis by blast
qed

lemma processDeps_frame:
  assumes ix: "isIndex S0 M0"
  shows "dceFrame S0 M0 (m, S, P) \<Longrightarrow>
         \<exists>m' S' P'. processDeps deps (m, S, P) = Inr (m', S', P') \<and> dceFrame S0 M0 (m', S', P')"
proof (induction deps arbitrary: m S P)
  case Nil
  then show ?case by simp
next
  case (Cons dep deps)
  show ?case
  proof (cases "map_of m dep")
    case None
    from Cons.IH [OF Cons.prems] None show ?thesis by simp
  next
    case (Some decls)
    from dceFrame_key [OF Cons.prems ix Some] obtain a name rest where
      sp: "Split dep (CHR '':'') = a # name # rest"
      and step: "\<And>S1 P1. fold (unblock name) decls (S, P) = (S1, P1) \<Longrightarrow>
                  dceFrame S0 M0 (AList.delete dep m, S1, P1)"
      by blast
    obtain S1 P1 where f: "fold (unblock name) decls (S, P) = (S1, P1)"
      by (cases "fold (unblock name) decls (S, P)")
    from Cons.IH [OF step [OF f]] Some sp f show ?thesis by simp
  qed
qed

lemma dceFrame_butlast: "dceFrame S0 M0 (m, S, P) \<Longrightarrow> dceFrame S0 M0 (m, S, P')"
  by (simp add: dceFrame_def)

lemma dceLoop_frame:
  assumes ix: "isIndex S0 M0"
  shows "dceFrame S0 M0 st \<Longrightarrow> \<exists>m' S'. dceLoop st = Inr (m', S') \<and> dceFrame S0 M0 (m', S', [])"
proof (induction st rule: dceLoop.induct)
  case (1 m S P)
  show ?case
  proof (cases "P = []")
    case True
    with "1.prems" show ?thesis by simp
  next
    case False
    from processDeps_frame [OF ix dceFrame_butlast [OF "1.prems"]]
    obtain m1 S1 P1 where
      p: "processDeps (DceDeps (getDecl S (last P))) (m, S, butlast P) = Inr (m1, S1, P1)"
      and fr1: "dceFrame S0 M0 (m1, S1, P1)"
      by blast
    from "1.IH" [OF False p fr1] False p show ?thesis by simp
  qed
qed

lemma DCE_total:
  "\<exists>m' S'. DCE pkgs = Inr (m', S') \<and>
     eraseFilters S' = eraseFilters pkgs \<and>
     (\<forall>r. validRef pkgs r \<longrightarrow> mset (filtersOf S' r) \<subseteq># mset (filtersOf pkgs r))"
proof -
  obtain P0 M0 where i: "indexPkgs pkgs = (P0, M0)"
    by (cases "indexPkgs pkgs")
  note ix = dceInv_initial(1) [OF i]
  have "dceFrame pkgs M0 (M0, pkgs, P0)"
    by (simp add: dceFrame_def)
  from dceLoop_frame [OF ix this] obtain m' S' where
    run: "dceLoop (M0, pkgs, P0) = Inr (m', S')" and fr: "dceFrame pkgs M0 (m', S', [])"
    by blast
  from run i have "DCE pkgs = Inr (m', S')" by (simp add: DCE_def)
  with fr show ?thesis unfolding dceFrame_def prod.case by blast
qed

subsection \<open>The claims on dead code elimination\<close>

lemma live_reachable: "live pkgs r \<Longrightarrow> reachable pkgs r"
proof (induction rule: live.induct)
  case (liveI r)
  show ?case
  proof (cases "filtersOf pkgs r")
    case Nil
    with liveI(1) show ?thesis by (rule reachable.seed)
  next
    case (Cons f fs)
    then have f: "f \<in> set (filtersOf pkgs r)" by simp
    with liveI(2) obtain r' where r': "reachable pkgs r'" "objectId pkgs r f \<in> set (depsOf pkgs r')"
      by blast
    show ?thesis by (rule reachable.hop [OF r'(1) liveI(1) f r'(2)])
  qed
qed

lemma unfiltered_live: "validRef pkgs r \<Longrightarrow> filtersOf pkgs r = [] \<Longrightarrow> live pkgs r"
  by (rule liveI) simp_all

text \<open>
  C2, amended. When no import path and no filter name contains a colon, the DCE phase
  returns, changes nothing but \<open>DceFilters\<close>, and leaves a declaration with empty filters
  exactly when the declaration is in \<open>live\<close>: every one of its filters, not just one, must be
  a dependency of a live declaration. In particular a declaration whose filters were empty
  before stays so, and a declaration that no chain of dependency-to-filter hops reaches
  from such a declaration keeps a filter.
\<close>

theorem DCE_live_iff:
  assumes "noColon pkgs"
  shows "\<exists>m' S'. DCE pkgs = Inr (m', S') \<and>
           eraseFilters S' = eraseFilters pkgs \<and>
           (\<forall>r. validRef pkgs r \<longrightarrow> (filtersOf S' r = [] \<longleftrightarrow> live pkgs r)) \<and>
           (\<forall>r. validRef pkgs r \<and> filtersOf pkgs r = [] \<longrightarrow> filtersOf S' r = []) \<and>
           (\<forall>r. validRef pkgs r \<and> \<not> reachable pkgs r \<longrightarrow> filtersOf S' r \<noteq> [])"
proof -
  from DCE_correct [OF assms] obtain m' S' where
    run: "DCE pkgs = Inr (m', S')" and frame: "eraseFilters S' = eraseFilters pkgs"
    and iff: "\<And>r. validRef pkgs r \<Longrightarrow> (filtersOf S' r = [] \<longleftrightarrow> live pkgs r)"
    by blast
  have "filtersOf S' r = []" if "validRef pkgs r \<and> filtersOf pkgs r = []" for r
    using iff [of r] unfiltered_live [of pkgs r] that by blast
  moreover have "filtersOf S' r \<noteq> []" if "validRef pkgs r \<and> \<not> reachable pkgs r" for r
    using iff [of r] live_reachable [of pkgs r] that by blast
  ultimately show ?thesis using run frame iff by blast
qed

theorem DCE_live_iff_witness:
  "noColon dceExample \<and> live dceExample (0, 2) \<and> \<not> live dceExample (0, 3)"
proof -
  have nc: "noColon dceExample"
    by (simp add: noColon_def dceExample_def archiveWith_def declWith_def)
  from DCE_live_iff [OF nc] obtain m' S' where
    run: "DCE dceExample = Inr (m', S')"
    and iff: "\<And>r. validRef dceExample r \<Longrightarrow> (filtersOf S' r = [] \<longleftrightarrow> live dceExample r)"
    by blast
  have v: "validRef dceExample (0, 2)" "validRef dceExample (0, 3)"
    by (simp_all add: validRef_def dceExample_def archiveWith_def)
  have "(case DCE dceExample of Inl e \<Rightarrow> False
     | Inr (m, S) \<Rightarrow> filtersOf S (0, 2) = [] \<and> filtersOf S (0, 3) = [''z''])"
    by code_simp
  with run have "filtersOf S' (0, 2) = []" "filtersOf S' (0, 3) \<noteq> []"
    by simp_all
  with iff [OF v(1)] iff [OF v(2)] nc show ?thesis by simp
qed

text \<open>
  C2, as stated, fails: the second declaration is one hop away from the first, which has
  no filters, yet its filter \<open>g\<close> is never consumed and it stays dead.
\<close>

theorem DCE_reachable_counterexample:
  "reachable [archiveWith ''p'' [declWith [] [''p:f''], declWith [''f'', ''g''] []]] (0, 1) \<and>
   (case DCE [archiveWith ''p'' [declWith [] [''p:f''], declWith [''f'', ''g''] []]] of
      Inl e \<Rightarrow> False
    | Inr (m, S) \<Rightarrow> filtersOf S (0, 1) = [''g''])"
proof
  let ?ex = "[archiveWith ''p'' [declWith [] [''p:f''], declWith [''f'', ''g''] []]]"
  have "reachable ?ex (0, 0)"
    by (rule reachable.seed) (simp_all add: validRef_def filtersOf_def getDecl_def archiveWith_def declWith_def)
  then show "reachable ?ex (0, 1)"
    by (rule reachable.hop [where f = "''f''"])
      (simp_all add: validRef_def filtersOf_def depsOf_def objectId_def getDecl_def
        archiveWith_def declWith_def)
  show "case DCE ?ex of Inl e \<Rightarrow> False | Inr (m, S) \<Rightarrow> filtersOf S (0, 1) = [''g'']"
    by code_simp
qed

section \<open>Properties of the package emitter\<close>

lemma bnd_Inr [simp]: "bnd (Inr x) k = k x"
  by (simp add: bnd_def)

lemma bnd_Inl [simp]: "bnd (Inl e) k = Inl e"
  by (simp add: bnd_def)

lemma bnd_assoc: "bnd (bnd m f) g = bnd m (\<lambda>x. bnd (f x) g)"
  by (cases m) simp_all

lemma forEach_append: "forEach body (xs @ ys) s = bnd (forEach body xs s) (forEach body ys)"
proof (induction xs arbitrary: s)
  case Nil
  show ?case by simp
next
  case (Cons x xs)
  have "forEach body (xs @ ys) = (\<lambda>s. bnd (forEach body xs s) (forEach body ys))"
    by (rule ext) (rule Cons.IH)
  then show ?case by (simp add: bnd_assoc)
qed

lemma forEach_filter:
  "forEach (\<lambda>x s. if P x then body x s else Inr s) xs s = forEach body (filter P xs) s"
proof (induction xs arbitrary: s)
  case Nil
  show ?case by simp
next
  case (Cons x xs)
  have "forEach (\<lambda>x s. if P x then body x s else Inr s) xs = forEach body (filter P xs)"
    by (rule ext) (rule Cons.IH)
  then show ?case by simp
qed

lemma forEach_map: "forEach body (map g xs) s = forEach (\<lambda>x. body (g x)) xs s"
proof (induction xs arbitrary: s)
  case Nil
  show ?case by simp
next
  case (Cons x xs)
  have "forEach body (map g xs) = forEach (\<lambda>x. body (g x)) xs"
    by (rule ext) (rule Cons.IH)
  then show ?case by simp
qed

lemma forEach_Nil_fun: "forEach body [] = Inr"
  by (rule ext) simp

lemma forEach_Cons_fun: "forEach body (x # xs) = (\<lambda>s. bnd (body x s) (forEach body xs))"
  by (rule ext) simp

lemma forEach_append_fun:
  "forEach body (xs @ ys) = (\<lambda>s. bnd (forEach body xs s) (forEach body ys))"
  by (rule ext) (rule forEach_append)

lemma bnd_Inr_right [simp]: "bnd m Inr = m"
  by (cases m) simp_all

lemma fold_append_imports:
  "fold (\<lambda>imp vars. vars @ [g imp]) imps vars = vars @ map g imps"
  by (induction imps arbitrary: vars) simp_all

lemma fold_append_vars:
  "fold (\<lambda>d vars. if P d then vars @ [g d] else vars) ds vars = vars @ map g (filter P ds)"
  by (induction ds arbitrary: vars) simp_all

lemma WritePkgCode_chunks:
  "WritePkgCode env wr pkg minify w =
     bnd (loadFileSet env pkg w) (\<lambda>w. forEach (\<lambda>c w. emit wr w c) (pkgChunks env pkg minify) w)"
proof -
  have vars: "fold (\<lambda>d vars. if length (DceFilters d) = 0 \<and> Var d \<noteq> [] then vars @ [Var d] else vars)
          (Declarations pkg)
          (fold (\<lambda>imp vars. vars @
               [VarName imp @ '' = $packages['' @ [CHR 0x22] @ Path imp @ [CHR 0x22] @ '']''])
             (Imports pkg) [''$pkg = {}'']) = pkgVars pkg"
    unfolding fold_append_imports fold_append_vars pkgVars_def isLive_def importBinding_def
    by simp
  have ne: "length (pkgVars pkg) \<noteq> 0" by (simp add: pkgVars_def)
  have body: "forEach (\<lambda>d w. if length (DceFilters d) = 0 then emit wr w (g d) else Inr w) ds
        = forEach (\<lambda>c w. emit wr w c) (map g (filter isLive ds))" for g ds
    by (rule ext) (simp add: forEach_map isLive_def forEach_filter [symmetric])
  show ?thesis
    unfolding WritePkgCode_def Let_def vars body pkgChunks_def
    using ne by (simp add: forEach_Cons_fun forEach_append_fun forEach_Nil_fun bnd_assoc)
qed

lemma WriteLoop_spare:
  fixes f :: "('w, 'fs) SourceMapFilter"
  shows "WriteLoop wr f p spare n = WriteLoop wr f p spare' n"
proof (induction p arbitrary: f n rule: length_induct)
  case (1 p)
  show ?case
  proof (cases "IndexByte p sentinel")
    case None
    then show ?thesis by (simp add: WriteLoop.simps [of wr f p])
  next
    case (Some i)
    show ?thesis
    proof (cases "length p < i + 5")
      case True
      with Some show ?thesis
        by (simp add: WriteLoop.simps [of wr f p] Let_def split: prod.splits)
    next
      case False
      then have c: "take 4 (drop (Suc i) (p @ s)) = take 4 (drop (Suc i) p)" for s
        by simp
      from False have "length (drop (i + 5) p) < length p" by simp
      with "1.IH" have IH: "WriteLoop wr g (drop (i + 5) p) spare m = WriteLoop wr g (drop (i + 5) p) spare' m"
        for g :: "('w, 'fs) SourceMapFilter" and m by blast
      from Some False show ?thesis
        by (simp add: WriteLoop.simps [of wr f p] Let_def c IH del: drop_append take_append split: prod.splits)
    qed
  qed
qed

lemma Write_spare: "Write wr f p spare = Write wr f p []"
  unfolding Write_def by (rule WriteLoop_spare)

lemma scanSpec_Writer: "Writer (scanSpec f p) = Writer f @ stripCookies p"
  by (induction f p rule: scanSpec.induct) simp_all

lemma scanSpec_MappingCallback: "MappingCallback (scanSpec f p) = MappingCallback f"
  by (induction f p rule: scanSpec.induct) simp_all

lemma emit_complete: "cookiesComplete p \<Longrightarrow> emit bufferWrite f p = Inr (scanSpec f p)"
  by (simp add: emit_def Write_cookiesComplete)

lemma emitAll_complete:
  "\<forall>c \<in> set cs. cookiesComplete c \<Longrightarrow>
     forEach (\<lambda>c w. emit bufferWrite w c) cs f = Inr (scanAll f cs)"
  by (induction cs arbitrary: f) (simp_all add: scanAll_def emit_complete)

lemma scanAll_Writer: "Writer (scanAll f cs) = Writer f @ concat (map stripCookies cs)"
  by (induction cs arbitrary: f) (simp_all add: scanAll_def scanSpec_Writer)

lemma scanAll_MappingCallback: "MappingCallback (scanAll f cs) = MappingCallback f"
  by (induction cs arbitrary: f) (simp_all add: scanAll_def scanSpec_MappingCallback)

lemma scanAll_append: "scanAll f (cs @ ds) = scanAll (scanAll f cs) ds"
  by (simp add: scanAll_def)

lemma loadFileSet_Writer:
  "loadFileSet env pkg w = Inr w0 \<Longrightarrow> Writer w0 = Writer w \<and> MappingCallback w0 = MappingCallback w"
  by (auto simp: loadFileSet_def split: if_splits option.splits)

lemma pkgChunks_dead:
  "pkgChunks env (pkg\<lparr>Declarations := filter isLive (Declarations pkg)\<rparr>) minify
     = pkgChunks env pkg minify"
proof -
  have "filter (\<lambda>d. isLive d \<and> Var d \<noteq> []) (filter isLive ds)
      = filter (\<lambda>d. isLive d \<and> Var d \<noteq> []) ds" for ds
    by (induction ds) simp_all
  then show ?thesis
    by (simp add: pkgChunks_def pkgVars_def)
qed

lemma stripCookies_plain: "sentinel \<notin> set p \<Longrightarrow> stripCookies p = p"
  by (induction p) auto

text \<open>
  C7. \<open>WritePkgCode\<close> decodes the position table when a callback is set and then writes, one
  \<open>Write\<close> call each and in this order: the opening line of the package; one \<open>var\<close> statement
  with \<open>$pkg = {}\<close>, a binding per import in the order of \<open>Imports\<close> and the non-empty \<open>Var\<close>
  of every declaration with no filter left, in declaration order; the \<open>BodyCode\<close> of every
  such declaration in declaration order; the opening of the init routine; their \<open>InitCode\<close>
  in the same order; the closing lines that return \<open>$pkg\<close>; and a newline. A declaration
  that still has a filter contributes nothing: dropping it from the archive changes no
  chunk. On a writer that accepts all bytes, with every cookie complete in its chunk, the
  call returns and the writer has received the chunks, cookies stripped, in that order.
\<close>

theorem WritePkgCode_emits:
  "WritePkgCode env wr pkg minify w =
     bnd (loadFileSet env pkg w) (\<lambda>w. forEach (\<lambda>c w. emit wr w c) (pkgChunks env pkg minify) w) \<and>
   pkgChunks env (pkg\<lparr>Declarations := filter isLive (Declarations pkg)\<rparr>) minify
     = pkgChunks env pkg minify \<and>
   (loadFileSet env pkg w = Inr w0 \<and> (\<forall>c \<in> set (pkgChunks env pkg minify). cookiesComplete c) \<longrightarrow>
      (\<exists>w'. WritePkgCode env bufferWrite pkg minify w = Inr w' \<and>
            Writer w' = Writer w @ concat (map stripCookies (pkgChunks env pkg minify))))"
proof (intro conjI impI)
  show "WritePkgCode env wr pkg minify w =
     bnd (loadFileSet env pkg w) (\<lambda>w. forEach (\<lambda>c w. emit wr w c) (pkgChunks env pkg minify) w)"
    by (rule WritePkgCode_chunks)
  show "pkgChunks env (pkg\<lparr>Declarations := filter isLive (Declarations pkg)\<rparr>) minify
     = pkgChunks env pkg minify"
    by (rule pkgChunks_dead)
  assume h: "loadFileSet env pkg w = Inr w0 \<and> (\<forall>c \<in> set (pkgChunks env pkg minify). cookiesComplete c)"
  then have "WritePkgCode env bufferWrite pkg minify w = Inr (scanAll w0 (pkgChunks env pkg minify))"
    by (simp add: WritePkgCode_chunks emitAll_complete)
  moreover have "Writer w0 = Writer w"
    using loadFileSet_Writer [OF conjunct1 [OF h]] by simp
  ultimately show "\<exists>w'. WritePkgCode env bufferWrite pkg minify w = Inr w' \<and>
            Writer w' = Writer w @ concat (map stripCookies (pkgChunks env pkg minify))"
    by (simp add: scanAll_Writer)
qed

theorem WritePkgCode_emits_witness:
  "\<exists>w'. WritePkgCode plainEnv bufferWrite pkgExample False plainFilter = Inr w' \<and>
     Writer w' =
       ''$packages['' @ [CHR 0x22] @ ''p'' @ [CHR 0x22] @ ''] = (function() {'' @ [newline] @
       [CHR 0x09] @ ''var $pkg = {}, q = $packages['' @ [CHR 0x22] @ ''q'' @ [CHR 0x22] @ ''], x;'' @ [newline] @
       ''B;'' @
       [CHR 0x09] @ ''$pkg.init = function() {'' @ [newline] @
       ''I;'' @
       [CHR 0x09] @ ''};'' @ [newline, CHR 0x09] @ ''return $pkg;'' @ [newline] @ ''})();'' @ [newline]"
proof -
  have l: "loadFileSet plainEnv pkgExample plainFilter = Inr plainFilter"
    by (simp add: loadFileSet_def plainFilter_def)
  have c: "\<forall>c \<in> set (pkgChunks plainEnv pkgExample False). cookiesComplete c"
    by (simp add: pkgChunks_def pkgVars_def importBinding_def isLive_def pkgExample_def plainEnv_def
        cookiesComplete.simps sentinel_def newline_def)
  from WritePkgCode_emits [of plainEnv bufferWrite pkgExample False plainFilter plainFilter] l c
  obtain w' where w': "WritePkgCode plainEnv bufferWrite pkgExample False plainFilter = Inr w'"
    "Writer w' = Writer plainFilter @ concat (map stripCookies (pkgChunks plainEnv pkgExample False))"
    by blast
  have "Writer plainFilter @ concat (map stripCookies (pkgChunks plainEnv pkgExample False)) =
       ''$packages['' @ [CHR 0x22] @ ''p'' @ [CHR 0x22] @ ''] = (function() {'' @ [newline] @
       [CHR 0x09] @ ''var $pkg = {}, q = $packages['' @ [CHR 0x22] @ ''q'' @ [CHR 0x22] @ ''], x;'' @ [newline] @
       ''B;'' @
       [CHR 0x09] @ ''$pkg.init = function() {'' @ [newline] @
       ''I;'' @
       [CHR 0x09] @ ''};'' @ [newline, CHR 0x09] @ ''return $pkg;'' @ [newline] @ ''})();'' @ [newline]"
    by (simp add: pkgChunks_def pkgVars_def importBinding_def isLive_def pkgExample_def plainEnv_def
        plainFilter_def sentinel_def newline_def)
  with w' show ?thesis by (simp only:) blast
qed

lemma qualifiedName_Some: "Pkg t \<noteq> None \<Longrightarrow> qualifiedName t = Inr (valueRef t)"
  by (auto simp: qualifiedName_def valueRef_def)

lemma setKey_set [simp]: "set (setKey k keys) = insert k (set keys)"
  by (auto simp: setKey_def)

lemma setKey_distinct [simp]: "distinct keys \<Longrightarrow> distinct (setKey k keys)"
  by (simp add: setKey_def)

lemma addImplementor_interface:
  "isInterfaceType te other \<Longrightarrow> addImplementor te in' other keys = Inr keys"
  by (simp add: addImplementor_def isInterfaceType_def Let_def split: typeKind.splits)

lemma addImplementor_other:
  assumes "\<not> isInterfaceType te other" and "Pkg other \<noteq> None"
  shows "\<exists>keys'. addImplementor te in' other keys = Inr keys' \<and>
           (distinct keys \<longrightarrow> distinct keys') \<and>
           set keys' = set keys \<union>
             (if AssignableTo te (Type other) in' then {valueRef other} else {}) \<union>
             (if AssignableTo te (NewPointer te (Type other)) in' then {pointerRef te other} else {})"
proof (cases "kindOf te (Underlying te (Type other))")
  case (Interface e)
  with assms(1) show ?thesis by (simp add: isInterfaceType_def)
next
  case Struct
  then show ?thesis
    by (auto simp: addImplementor_def Let_def qualifiedName_Some [OF assms(2)] pointerRef_def)
next
  case OtherKind
  then show ?thesis
    by (auto simp: addImplementor_def Let_def qualifiedName_Some [OF assms(2)] pointerRef_def)
qed

lemma forEach_addImplementor:
  "implementorsWf te all \<Longrightarrow> distinct keys \<Longrightarrow>
     \<exists>keys'. forEach (addImplementor te in') all keys = Inr keys' \<and> distinct keys' \<and>
       set keys' = set keys \<union> implementorRefs te in' all"
proof (induction all arbitrary: keys)
  case Nil
  then show ?case by (simp add: implementorRefs_def)
next
  case (Cons t all)
  from Cons.prems(1) have wf: "implementorsWf te all" and t: "isInterfaceType te t \<or> Pkg t \<noteq> None"
    by (simp_all add: implementorsWf_def)
  show ?case
  proof (cases "isInterfaceType te t")
    case True
    from Cons.IH [OF wf Cons.prems(2)] True show ?thesis
      by (auto simp: addImplementor_interface implementorRefs_def)
  next
    case False
    with t have p: "Pkg t \<noteq> None" by simp
    from addImplementor_other [OF False p, of in' keys] Cons.prems(2) obtain keys1 where
      k1: "addImplementor te in' t keys = Inr keys1" "distinct keys1"
      "set keys1 = set keys \<union>
             (if AssignableTo te (Type t) in' then {valueRef t} else {}) \<union>
             (if AssignableTo te (NewPointer te (Type t)) in' then {pointerRef te t} else {})"
      by blast
    from Cons.IH [OF wf k1(2)] obtain keys' where
      k': "forEach (addImplementor te in') all keys1 = Inr keys'" "distinct keys'"
      "set keys' = set keys1 \<union> implementorRefs te in' all"
      by blast
    have "set keys' = set keys \<union> implementorRefs te in' (t # all)"
      unfolding k'(3) k1(3) using False by (auto simp: implementorRefs_def)
    with k1(1) k'(1,2) show ?thesis by simp
  qed
qed

lemma sort_mapOrder:
  assumes "isMapOrder mapOrder" and "distinct keys"
  shows "sort (mapOrder keys) = sorted_list_of_set (set keys)"
proof -
  from assms(1) have m: "mset (mapOrder keys) = mset keys"
    by (simp add: isMapOrder_def)
  have "sort (mapOrder keys) = sort keys"
    by (rule properties_for_sort) (simp_all add: m)
  also have "\<dots> = sorted_list_of_set (set keys)"
    using assms(2) by (simp add: sorted_list_of_set_sort_remdups distinct_remdups_id)
  finally show ?thesis .
qed

lemma implementedByList_correct:
  assumes "implementorsWf te all" and "isMapOrder mapOrder"
  shows "implementedByList te mapOrder in' all = Inr (sorted_list_of_set (implementorRefs te in' all))"
proof -
  from forEach_addImplementor [OF assms(1), of "[]" in'] obtain keys where
    k: "forEach (addImplementor te in') all [] = Inr keys" "distinct keys"
    "set keys = implementorRefs te in' all"
    by auto
  from sort_mapOrder [OF assms(2) k(2)] k show ?thesis
    by (simp add: implementedByList_def)
qed

lemma finite_implementorRefs [simp]: "finite (implementorRefs te in' all)"
  by (simp add: implementorRefs_def)

lemma implementorRefs_filter:
  "implementorRefs te in' (filter (\<lambda>t. \<not> isInterfaceType te t) all) = implementorRefs te in' all"
  by (auto simp: implementorRefs_def)

lemma implementorsWf_filter: "implementorsWf te all \<Longrightarrow> implementorsWf te (filter P all)"
  by (simp add: implementorsWf_def)

section \<open>Properties of the interface tables\<close>

text \<open>
  C4. For an interface \<open>in\<close> and candidates whose non-interface members belong to a package,
  whatever order the runtime enumerates the keys of the \<open>implementedBy\<close> map in: the list
  that is emitted has no duplicates, is sorted, and holds exactly the value-form reference
  of every non-interface candidate assignable to \<open>in\<close> and the pointer-form reference of
  every non-interface candidate whose pointer is assignable to \<open>in\<close>. Candidates whose
  underlying type is an interface contribute nothing: removing them from the candidates
  gives the same list.
\<close>

theorem implementedByList_sorted_set:
  assumes "implementorsWf te all" and "isMapOrder mapOrder"
  shows "\<exists>list. implementedByList te mapOrder in' all = Inr list \<and>
           distinct list \<and> sorted list \<and>
           set list = implementorRefs te in' all \<and>
           implementedByList te mapOrder in' (filter (\<lambda>t. \<not> isInterfaceType te t) all) = Inr list \<and>
           (\<forall>t \<in> set all. \<not> isInterfaceType te t \<longrightarrow>
              (AssignableTo te (Type t) in' \<longrightarrow> valueRef t \<in> set list) \<and>
              (AssignableTo te (NewPointer te (Type t)) in' \<longrightarrow> pointerRef te t \<in> set list))"
proof -
  let ?l = "sorted_list_of_set (implementorRefs te in' all)"
  have a: "implementedByList te mapOrder in' all = Inr ?l"
    by (rule implementedByList_correct [OF assms])
  have b: "implementedByList te mapOrder in' (filter (\<lambda>t. \<not> isInterfaceType te t) all) = Inr ?l"
    using implementedByList_correct
      [OF implementorsWf_filter [OF assms(1), of "\<lambda>t. \<not> isInterfaceType te t"] assms(2)]
    by (simp add: implementorRefs_filter)
  have c: "set ?l = implementorRefs te in' all" by simp
  have d: "\<forall>t \<in> set all. \<not> isInterfaceType te t \<longrightarrow>
              (AssignableTo te (Type t) in' \<longrightarrow> valueRef t \<in> set ?l) \<and>
              (AssignableTo te (NewPointer te (Type t)) in' \<longrightarrow> pointerRef te t \<in> set ?l)"
    unfolding c by (auto simp: implementorRefs_def)
  from a b c d show ?thesis by (intro exI [of _ ?l]) simp
qed

theorem implementedByList_sorted_set_witness:
  "implementorsWf sampleTypes sampleTypeNames \<and> isMapOrder rev \<and>
   implementedByList sampleTypes rev (InterfaceType [''M'']) sampleTypeNames =
     Inr [''$packages['' @ [CHR 0x22] @ ''p'' @ [CHR 0x22] @ ''].S'',
          ''$packages['' @ [CHR 0x22] @ ''p'' @ [CHR 0x22] @ ''].S.Ptr'',
          ''$ptrType($packages['' @ [CHR 0x22] @ ''p'' @ [CHR 0x22] @ ''].N)''] \<and>
   set [''$packages['' @ [CHR 0x22] @ ''p'' @ [CHR 0x22] @ ''].S'',
        ''$packages['' @ [CHR 0x22] @ ''p'' @ [CHR 0x22] @ ''].S.Ptr'',
        ''$ptrType($packages['' @ [CHR 0x22] @ ''p'' @ [CHR 0x22] @ ''].N)'']
     = implementorRefs sampleTypes (InterfaceType [''M'']) sampleTypeNames"
proof -
  have wf: "implementorsWf sampleTypes sampleTypeNames"
    by (simp add: implementorsWf_def sampleTypeNames_def sampleTypes_def isInterfaceType_def)
  have ord: "isMapOrder rev"
    by (simp add: isMapOrder_def)
  have run: "implementedByList sampleTypes rev (InterfaceType [''M'']) sampleTypeNames =
     Inr [''$packages['' @ [CHR 0x22] @ ''p'' @ [CHR 0x22] @ ''].S'',
          ''$packages['' @ [CHR 0x22] @ ''p'' @ [CHR 0x22] @ ''].S.Ptr'',
          ''$ptrType($packages['' @ [CHR 0x22] @ ''p'' @ [CHR 0x22] @ ''].N)'']"
    by code_simp
  from implementedByList_sorted_set [OF wf ord, of "InterfaceType [''M'']"] run wf ord
  show ?thesis by auto
qed

lemma writeInterface_skip:
  "\<not> qualifies te t \<Longrightarrow> writeInterface env te mapOrder wr minify all t w = Inr w"
  by (cases "kindOf te (Underlying te (Type t))")
    (auto simp: writeInterface_def qualifies_def)

lemma writeInterface_table:
  assumes q: "qualifies te t" and wf: "implementorsWf te all" and ord: "isMapOrder mapOrder"
    and tgt: "Name t = ''error'' \<or> Pkg t \<noteq> None"
  shows "writeInterface env te mapOrder wr minify all t w = emit wr w (tableChunk env te minify all t)"
proof -
  from q have k: "kindOf te (Underlying te (Type t)) = Interface False"
    by (simp add: qualifies_def)
  have target: "(if Name t = ''error'' then Inr ''$error'' else qualifiedName t)
      = Inr (if Name t = ''error'' then ''$error'' else valueRef t)"
    using tgt by (auto simp: qualifiedName_Some)
  show ?thesis
    unfolding writeInterface_def k target
    by (simp add: implementedByList_correct [OF wf ord] tableChunk_def)
qed

lemma forEach_writeInterface:
  assumes wf: "tablesWf te all" and ord: "isMapOrder mapOrder"
  shows "set ts \<subseteq> set all \<Longrightarrow>
     forEach (writeInterface env te mapOrder wr minify all) ts w =
       forEach (\<lambda>c w. emit wr w c) (map (tableChunk env te minify all) (filter (qualifies te) ts)) w"
proof (induction ts arbitrary: w)
  case Nil
  show ?case by simp
next
  case (Cons t ts)
  then have t: "t \<in> set all" and sub: "set ts \<subseteq> set all" by simp_all
  have IH: "forEach (writeInterface env te mapOrder wr minify all) ts =
       forEach (\<lambda>c w. emit wr w c) (map (tableChunk env te minify all) (filter (qualifies te) ts))"
    by (rule ext) (rule Cons.IH [OF sub])
  show ?case
  proof (cases "qualifies te t")
    case False
    then show ?thesis by (simp add: writeInterface_skip IH)
  next
    case True
    from wf t True have tgt: "Name t = ''error'' \<or> Pkg t \<noteq> None" and iwf: "implementorsWf te all"
      unfolding tablesWf_def by blast+
    show ?thesis
      using True by (simp add: IH writeInterface_table [OF True iwf ord tgt])
  qed
qed

lemma fold_scopeTypeNames:
  "fold (\<lambda>(name, obj) all.
             case obj of
               TypeNameObject typeName \<Rightarrow> if P name then all @ [typeName] else all
             | OtherObject \<Rightarrow> all) scope all
   = all @ concat (map (\<lambda>(name, obj).
           case obj of TypeNameObject typeName \<Rightarrow> if P name then [typeName] else []
           | OtherObject \<Rightarrow> []) scope)"
  by (induction scope arbitrary: all) (auto split: Object.splits)

lemma scopeTypeNames_concat:
  "scopeTypeNames m path scope all =
     all @ concat (map (\<lambda>(name, obj).
           case obj of
             TypeNameObject typeName \<Rightarrow> if map_of m (path @ '':'' @ name) = None then [typeName] else []
           | OtherObject \<Rightarrow> []) scope)"
  unfolding scopeTypeNames_def
  by (rule fold_scopeTypeNames [where P = "\<lambda>name. map_of m (path @ '':'' @ name) = None"])

lemma forEach_collect:
  "\<forall>pkg \<in> set pkgs. reg (ImportPath pkg) \<noteq> None \<Longrightarrow>
     forEach (\<lambda>pkg all.
                case reg (ImportPath pkg) of
                  None \<Rightarrow> Inl NilDereference
                | Some scope \<Rightarrow> Inr (all @ g pkg scope)) pkgs all
     = Inr (all @ concat (map (\<lambda>pkg. g pkg (the (reg (ImportPath pkg)))) pkgs))"
proof (induction pkgs arbitrary: all)
  case Nil
  show ?case by simp
next
  case (Cons pkg pkgs)
  then obtain scope where s: "reg (ImportPath pkg) = Some scope" by auto
  from Cons.prems have rest: "\<forall>pkg \<in> set pkgs. reg (ImportPath pkg) \<noteq> None" by simp
  show ?case
    by (simp add: s Cons.IH [OF rest])
qed

lemma collectTypeNames_candidates:
  assumes "\<forall>pkg \<in> set pkgs. reg (ImportPath pkg) \<noteq> None"
  shows "collectTypeNames te reg m pkgs = Inr (candidateTypeNames te reg m pkgs)"
proof -
  let ?g = "\<lambda>pkg scope. concat (map (\<lambda>(name, obj).
           case obj of
             TypeNameObject typeName \<Rightarrow>
               if map_of m (ImportPath pkg @ '':'' @ name) = None then [typeName] else []
           | OtherObject \<Rightarrow> []) scope)"
  have "collectTypeNames te reg m pkgs =
      forEach (\<lambda>pkg all.
                case reg (ImportPath pkg) of
                  None \<Rightarrow> Inl NilDereference
                | Some scope \<Rightarrow> Inr (all @ ?g pkg scope)) pkgs [errorTypeName te]"
    unfolding collectTypeNames_def scopeTypeNames_concat ..
  also have "\<dots> = Inr ([errorTypeName te] @
      concat (map (\<lambda>pkg. ?g pkg (the (reg (ImportPath pkg)))) pkgs))"
    by (rule forEach_collect [OF assms])
  also have "\<dots> = Inr (candidateTypeNames te reg m pkgs)"
    unfolding candidateTypeNames_def append_Cons [of "errorTypeName te" "[]"] append_Nil ..
  finally show ?thesis .
qed

lemma collectTypeNames_missing:
  "pkg \<in> set pkgs \<Longrightarrow> reg (ImportPath pkg) = None \<Longrightarrow>
     forEach (\<lambda>pkg all.
                case reg (ImportPath pkg) of
                  None \<Rightarrow> Inl NilDereference
                | Some scope \<Rightarrow> Inr (scopeTypeNames m (ImportPath pkg) scope all)) pkgs all
     = Inl NilDereference"
proof (induction pkgs arbitrary: all)
  case Nil
  then show ?case by simp
next
  case (Cons p pkgs)
  show ?case
  proof (cases "reg (ImportPath p)")
    case None
    then show ?thesis by simp
  next
    case (Some scope)
    with Cons.prems have "pkg \<in> set pkgs" by auto
    from Cons.IH [OF this Cons.prems(2)] Some show ?thesis by simp
  qed
qed

text \<open>
  C5. The candidates are the built-in \<open>error\<close> type name, always and first, whatever the
  packages declare, followed by the type names of the packages' scopes whose object id is
  no longer indexed by the DCE. With every package registered, the table loop writes one
  chunk for each candidate whose underlying type is an interface with at least one method,
  in candidate order, and nothing for any other candidate (an empty interface, a struct,
  any other type). The table of a candidate named \<open>error\<close> is written under \<open>$error\<close>, any
  other under \<open>$packages["path"].Name\<close>. The built-in of go/types is named \<open>error\<close> and
  its underlying type is an interface with the method \<open>Error\<close>: given these two facts, the
  table of the built-in is written, under \<open>$error\<close>, and it is the first table.
\<close>

theorem interface_tables:
  assumes reg: "\<forall>pkg \<in> set pkgs. typesPackages (ImportPath pkg) \<noteq> None"
    and all: "all = candidateTypeNames te typesPackages declsByObject pkgs"
    and wf: "tablesWf te all" and ord: "isMapOrder mapOrder"
  shows "collectTypeNames te typesPackages declsByObject pkgs = Inr all \<and>
         hd all = errorTypeName te \<and>
         forEach (writeInterface env te mapOrder wr minify all) all w =
           forEach (\<lambda>c w. emit wr w c) (map (tableChunk env te minify all) (filter (qualifies te) all)) w \<and>
         (\<forall>t. \<not> qualifies te t \<longrightarrow> writeInterface env te mapOrder wr minify all t w = Inr w) \<and>
         (\<forall>t \<in> set all. qualifies te t \<longrightarrow>
            writeInterface env te mapOrder wr minify all t w =
              emit wr w (removeWhitespace env
                ((if Name t = ''error'' then ''$error''
                  else ''$packages['' @ [CHR 0x22] @ the (Pkg t) @ [CHR 0x22] @ ''].'' @ Name t) @
                 ''.implementedBy = ['' @
                 Join (sorted_list_of_set (implementorRefs te (Underlying te (Type t)) all)) '', '' @
                 ''];'' @ [newline]) minify)) \<and>
         errorTypeName te \<in> set all \<and>
         (Name (errorTypeName te) = ''error'' \<and> qualifies te (errorTypeName te) \<longrightarrow>
            writeInterface env te mapOrder wr minify all (errorTypeName te) w =
              emit wr w (removeWhitespace env
                (''$error.implementedBy = ['' @
                 Join (sorted_list_of_set
                   (implementorRefs te (Underlying te (Type (errorTypeName te))) all)) '', '' @
                 ''];'' @ [newline]) minify) \<and>
            hd (map (tableChunk env te minify all) (filter (qualifies te) all)) =
              removeWhitespace env
                (''$error.implementedBy = ['' @
                 Join (sorted_list_of_set
                   (implementorRefs te (Underlying te (Type (errorTypeName te))) all)) '', '' @
                 ''];'' @ [newline]) minify)"
proof (intro conjI allI ballI impI)
  show "collectTypeNames te typesPackages declsByObject pkgs = Inr all"
    unfolding all by (rule collectTypeNames_candidates [OF reg])
  show "hd all = errorTypeName te"
    by (simp add: all candidateTypeNames_def)
  show "forEach (writeInterface env te mapOrder wr minify all) all w =
           forEach (\<lambda>c w. emit wr w c) (map (tableChunk env te minify all) (filter (qualifies te) all)) w"
    by (rule forEach_writeInterface [OF wf ord subset_refl])
  show "writeInterface env te mapOrder wr minify all t w = Inr w" if "\<not> qualifies te t" for t
    by (rule writeInterface_skip [OF that])
  show "writeInterface env te mapOrder wr minify all t w =
              emit wr w (removeWhitespace env
                ((if Name t = ''error'' then ''$error''
                  else ''$packages['' @ [CHR 0x22] @ the (Pkg t) @ [CHR 0x22] @ ''].'' @ Name t) @
                 ''.implementedBy = ['' @
                 Join (sorted_list_of_set (implementorRefs te (Underlying te (Type t)) all)) '', '' @
                 ''];'' @ [newline]) minify)"
    if t: "t \<in> set all" and q: "qualifies te t" for t
  proof -
    from wf t q have tgt: "Name t = ''error'' \<or> Pkg t \<noteq> None" and iwf: "implementorsWf te all"
      unfolding tablesWf_def by blast+
    show ?thesis
      by (simp add: writeInterface_table [OF q iwf ord tgt] tableChunk_def valueRef_def)
  qed
  show "errorTypeName te \<in> set all"
    by (simp add: all candidateTypeNames_def)
next
  assume e: "Name (errorTypeName te) = ''error'' \<and> qualifies te (errorTypeName te)"
  then have n: "Name (errorTypeName te) = ''error''" and q: "qualifies te (errorTypeName te)"
    by simp_all
  from wf have iwf: "implementorsWf te all"
    unfolding tablesWf_def by blast
  from n have tgt: "Name (errorTypeName te) = ''error'' \<or> Pkg (errorTypeName te) \<noteq> None" ..
  have chunk: "tableChunk env te minify all (errorTypeName te) =
      removeWhitespace env
        (''$error.implementedBy = ['' @
         Join (sorted_list_of_set
           (implementorRefs te (Underlying te (Type (errorTypeName te))) all)) '', '' @
         ''];'' @ [newline]) minify"
    by (simp add: tableChunk_def n)
  show "writeInterface env te mapOrder wr minify all (errorTypeName te) w =
      emit wr w (removeWhitespace env
        (''$error.implementedBy = ['' @
         Join (sorted_list_of_set
           (implementorRefs te (Underlying te (Type (errorTypeName te))) all)) '', '' @
         ''];'' @ [newline]) minify)"
    unfolding writeInterface_table [OF q iwf ord tgt] chunk ..
  obtain rest where "all = errorTypeName te # rest"
    unfolding all candidateTypeNames_def by blast
  with q have "filter (qualifies te) all = errorTypeName te # filter (qualifies te) rest"
    by simp
  then have "hd (map (tableChunk env te minify all) (filter (qualifies te) all)) =
      tableChunk env te minify all (errorTypeName te)"
    by simp
  then show "hd (map (tableChunk env te minify all) (filter (qualifies te) all)) =
      removeWhitespace env
        (''$error.implementedBy = ['' @
         Join (sorted_list_of_set
           (implementorRefs te (Underlying te (Type (errorTypeName te))) all)) '', '' @
         ''];'' @ [newline]) minify"
    unfolding chunk .
qed

theorem interface_tables_witness:
  "collectTypeNames sampleTypes [''p'' \<mapsto> sampleScope] [] [pkgExample] =
     Inr (candidateTypeNames sampleTypes [''p'' \<mapsto> sampleScope] [] [pkgExample]) \<and>
   map Name (candidateTypeNames sampleTypes [''p'' \<mapsto> sampleScope] [] [pkgExample]) =
     [''error'', ''E'', ''I'', ''N'', ''S''] \<and>
   (case forEach (writeInterface plainEnv sampleTypes rev bufferWrite False
                    (candidateTypeNames sampleTypes [''p'' \<mapsto> sampleScope] [] [pkgExample]))
           (candidateTypeNames sampleTypes [''p'' \<mapsto> sampleScope] [] [pkgExample]) plainFilter of
      Inl e \<Rightarrow> False
    | Inr w \<Rightarrow> Writer w =
        ''$error.implementedBy = [];'' @ [newline] @
        ''$packages['' @ [CHR 0x22] @ ''p'' @ [CHR 0x22] @ ''].I.implementedBy = ['' @
        ''$packages['' @ [CHR 0x22] @ ''p'' @ [CHR 0x22] @ ''].S, '' @
        ''$packages['' @ [CHR 0x22] @ ''p'' @ [CHR 0x22] @ ''].S.Ptr, '' @
        ''$ptrType($packages['' @ [CHR 0x22] @ ''p'' @ [CHR 0x22] @ ''].N)];'' @ [newline]) \<and>
   Name (errorTypeName sampleTypes) = ''error'' \<and> qualifies sampleTypes (errorTypeName sampleTypes) \<and>
   (case writeInterface plainEnv sampleTypes rev bufferWrite False
           (candidateTypeNames sampleTypes [''p'' \<mapsto> sampleScope] [] [pkgExample])
           (errorTypeName sampleTypes) plainFilter of
      Inl e \<Rightarrow> False
    | Inr w \<Rightarrow> Writer w = ''$error.implementedBy = [];'' @ [newline])"
proof -
  let ?all = "candidateTypeNames sampleTypes [''p'' \<mapsto> sampleScope] [] [pkgExample]"
  have reg: "\<forall>pkg \<in> set [pkgExample]. [''p'' \<mapsto> sampleScope] (ImportPath pkg) \<noteq> None"
    by (simp add: pkgExample_def)
  have all: "?all =
     [\<lparr>Name = ''error'', Pkg = None, Type = Named ''error''\<rparr>,
      \<lparr>Name = ''E'', Pkg = Some ''p'', Type = Named ''E''\<rparr>,
      \<lparr>Name = ''I'', Pkg = Some ''p'', Type = Named ''I''\<rparr>,
      \<lparr>Name = ''N'', Pkg = Some ''p'', Type = Named ''N''\<rparr>,
      \<lparr>Name = ''S'', Pkg = Some ''p'', Type = Named ''S''\<rparr>]"
    by (simp add: candidateTypeNames_def sampleScope_def sampleTypes_def pkgExample_def)
  have wf: "tablesWf sampleTypes ?all"
    unfolding all
    by (simp add: tablesWf_def implementorsWf_def qualifies_def isInterfaceType_def sampleTypes_def)
  have ord: "isMapOrder rev"
    by (simp add: isMapOrder_def)
  have err: "Name (errorTypeName sampleTypes) = ''error''" "qualifies sampleTypes (errorTypeName sampleTypes)"
    by (simp_all add: sampleTypes_def qualifies_def)
  note t = interface_tables [OF reg refl wf ord, of plainEnv bufferWrite False plainFilter]
  have run: "(case forEach (\<lambda>c w. emit bufferWrite w c)
                 (map (tableChunk plainEnv sampleTypes False ?all) (filter (qualifies sampleTypes) ?all))
                 plainFilter of
      Inl e \<Rightarrow> False
    | Inr w \<Rightarrow> Writer w =
        ''$error.implementedBy = [];'' @ [newline] @
        ''$packages['' @ [CHR 0x22] @ ''p'' @ [CHR 0x22] @ ''].I.implementedBy = ['' @
        ''$packages['' @ [CHR 0x22] @ ''p'' @ [CHR 0x22] @ ''].S, '' @
        ''$packages['' @ [CHR 0x22] @ ''p'' @ [CHR 0x22] @ ''].S.Ptr, '' @
        ''$ptrType($packages['' @ [CHR 0x22] @ ''p'' @ [CHR 0x22] @ ''].N)];'' @ [newline])"
    by code_simp
  have run_error: "(case emit bufferWrite plainFilter (removeWhitespace plainEnv
        (''$error.implementedBy = ['' @
         Join (sorted_list_of_set
           (implementorRefs sampleTypes (Underlying sampleTypes (Type (errorTypeName sampleTypes))) ?all)) '', '' @
         ''];'' @ [newline]) False) of
      Inl e \<Rightarrow> False
    | Inr w \<Rightarrow> Writer w = ''$error.implementedBy = [];'' @ [newline])"
    by code_simp
  from t have "collectTypeNames sampleTypes [''p'' \<mapsto> sampleScope] [] [pkgExample] = Inr ?all"
    and "forEach (writeInterface plainEnv sampleTypes rev bufferWrite False ?all) ?all plainFilter =
         forEach (\<lambda>c w. emit bufferWrite w c)
           (map (tableChunk plainEnv sampleTypes False ?all) (filter (qualifies sampleTypes) ?all))
           plainFilter"
    by blast+
  moreover from t err have "writeInterface plainEnv sampleTypes rev bufferWrite False ?all
        (errorTypeName sampleTypes) plainFilter =
      emit bufferWrite plainFilter (removeWhitespace plainEnv
        (''$error.implementedBy = ['' @
         Join (sorted_list_of_set
           (implementorRefs sampleTypes (Underlying sampleTypes (Type (errorTypeName sampleTypes))) ?all)) '', '' @
         ''];'' @ [newline]) False)"
    by blast
  ultimately show ?thesis
    using run run_error all err by simp
qed

section \<open>Properties of the program emitter\<close>

lemma emitsTo_emit:
  "cookiesComplete c \<Longrightarrow> emitsTo cb (\<lambda>w. emit bufferWrite w c) (stripCookies c)"
  by (simp add: emitsTo_def emit_complete scanSpec_Writer scanSpec_MappingCallback)

lemma emitsTo_bnd:
  assumes "emitsTo cb f X" and "emitsTo cb g Y"
  shows "emitsTo cb (\<lambda>w. bnd (f w) g) (X @ Y)"
  unfolding emitsTo_def
proof (intro allI impI)
  fix w :: "(bytes, 'a) SourceMapFilter"
  assume "MappingCallback w = cb"
  with assms(1) obtain w1 where w1: "f w = Inr w1" "Writer w1 = Writer w @ X" "MappingCallback w1 = cb"
    unfolding emitsTo_def by blast
  with assms(2) obtain w2 where w2: "g w1 = Inr w2" "Writer w2 = Writer w1 @ Y" "MappingCallback w2 = cb"
    unfolding emitsTo_def by blast
  from w1 w2 show "\<exists>w'. bnd (f w) g = Inr w' \<and> Writer w' = Writer w @ X @ Y \<and> MappingCallback w' = cb"
    by simp
qed

lemma emitsTo_forEach:
  "(\<And>x. x \<in> set xs \<Longrightarrow> emitsTo cb (body x) (out x)) \<Longrightarrow>
     emitsTo cb (forEach body xs) (concat (map out xs))"
proof (induction xs)
  case Nil
  show ?case by (simp add: emitsTo_def forEach_Nil_fun)
next
  case (Cons x xs)
  have "emitsTo cb (\<lambda>w. bnd (body x w) (forEach body xs)) (out x @ concat (map out xs))"
    by (rule emitsTo_bnd) (simp_all add: Cons)
  then show ?case by (simp add: forEach_Cons_fun)
qed

lemma emitsTo_chunks:
  "\<forall>c \<in> set cs. cookiesComplete c \<Longrightarrow>
     emitsTo cb (forEach (\<lambda>c w. emit bufferWrite w c) cs) (concat (map stripCookies cs))"
  by (rule emitsTo_forEach) (simp add: emitsTo_emit)

lemma emitsTo_loadFileSet:
  assumes "cb \<longrightarrow> (case FileSet pkg of None \<Rightarrow> True | Some b \<Rightarrow> readFileSet env b \<noteq> None)"
  shows "emitsTo cb (loadFileSet env pkg) []"
  using assms by (auto simp: emitsTo_def loadFileSet_def split: option.splits)

lemma emitsTo_WritePkgCode:
  assumes "cb \<longrightarrow> (case FileSet pkg of None \<Rightarrow> True | Some b \<Rightarrow> readFileSet env b \<noteq> None)"
    and "\<forall>c \<in> set (pkgChunks env pkg minify). cookiesComplete c"
  shows "emitsTo cb (WritePkgCode env bufferWrite pkg minify)
           (concat (map stripCookies (pkgChunks env pkg minify)))"
proof -
  have "emitsTo cb (\<lambda>w. bnd (loadFileSet env pkg w)
            (forEach (\<lambda>c w. emit bufferWrite w c) (pkgChunks env pkg minify)))
          ([] @ concat (map stripCookies (pkgChunks env pkg minify)))"
    by (rule emitsTo_bnd [OF emitsTo_loadFileSet [OF assms(1)] emitsTo_chunks [OF assms(2)]])
  moreover have "WritePkgCode env bufferWrite pkg minify =
      (\<lambda>w. bnd (loadFileSet env pkg w)
            (forEach (\<lambda>c w. emit bufferWrite w c) (pkgChunks env pkg minify)))"
    by (rule ext) (rule WritePkgCode_chunks)
  ultimately show ?thesis by simp
qed

lemma emitsTo_packages:
  assumes "cb \<longrightarrow> fileSetsLoad env pkgs"
    and "\<forall>c \<in> set (concat (map (\<lambda>pkg. pkgChunks env pkg minify) pkgs)). cookiesComplete c"
  shows "emitsTo cb (forEach (\<lambda>pkg w. WritePkgCode env bufferWrite pkg minify w) pkgs)
           (concat (map stripCookies (concat (map (\<lambda>pkg. pkgChunks env pkg minify) pkgs))))"
proof -
  have "emitsTo cb (forEach (\<lambda>pkg. WritePkgCode env bufferWrite pkg minify) pkgs)
          (concat (map (\<lambda>pkg. concat (map stripCookies (pkgChunks env pkg minify))) pkgs))"
  proof (rule emitsTo_forEach)
    fix pkg assume p: "pkg \<in> set pkgs"
    with assms(1) have l: "cb \<longrightarrow> (case FileSet pkg of None \<Rightarrow> True | Some b \<Rightarrow> readFileSet env b \<noteq> None)"
      by (auto simp: fileSetsLoad_def)
    from p assms(2) have c: "\<forall>c \<in> set (pkgChunks env pkg minify). cookiesComplete c"
      by auto
    show "emitsTo cb (WritePkgCode env bufferWrite pkg minify)
            (concat (map stripCookies (pkgChunks env pkg minify)))"
      by (rule emitsTo_WritePkgCode [OF l c])
  qed
  moreover have "concat (map (\<lambda>pkg. concat (map stripCookies (pkgChunks env pkg minify))) pkgs)
      = concat (map stripCookies (concat (map (\<lambda>pkg. pkgChunks env pkg minify) pkgs)))"
    by (induction pkgs) simp_all
  ultimately show ?thesis by simp
qed

lemma emitsTo_D:
  "emitsTo cb step out \<Longrightarrow> MappingCallback w = cb \<Longrightarrow>
     \<exists>w'. step w = Inr w' \<and> Writer w' = Writer w @ out"
  unfolding emitsTo_def by blast

lemma WriteProgramCode_chunks:
  assumes dce: "DCE pkgs0 = Inr (m, pkgs)"
    and reg: "\<forall>pkg \<in> set pkgs. typesPackages (ImportPath pkg) \<noteq> None"
    and all: "all = candidateTypeNames te typesPackages m pkgs"
    and wf: "tablesWf te all" and ord: "isMapOrder mapOrder"
    and load: "MappingCallback w \<longrightarrow> fileSetsLoad env pkgs"
    and complete: "\<forall>c \<in> set (programChunks env te minify mainPkgPath pkgs all). cookiesComplete c"
  shows "\<exists>w'. WriteProgramCode env te typesPackages mapOrder bufferWrite pkgs0 mainPkgPath minify w
                 = Inr (pkgs, w') \<and>
              Writer w' = Writer w @
                concat (map stripCookies (programChunks env te minify mainPkgPath pkgs all))"
proof -
  let ?cb = "MappingCallback w"
  let ?open = "[CHR 0x22] @ ''use strict'' @ [CHR 0x22] @ '';'' @ [newline] @ ''(function() {'' @ [newline, newline]"
  let ?prelude = "removeWhitespace env (TrimSpace env (prelude env)) minify"
  let ?pk = "concat (map (\<lambda>pkg. pkgChunks env pkg minify) pkgs)"
  let ?tb = "map (tableChunk env te minify all) (filter (qualifies te) all)"
  let ?init = "\<lambda>pkg. ''$packages['' @ [CHR 0x22] @ ImportPath pkg @ [CHR 0x22] @ ''].init();'' @ [newline]"
  let ?entry = "''$packages['' @ [CHR 0x22] @ mainPkgPath @ [CHR 0x22] @ ''].main(function() {});'' @
        [newline, newline] @ ''})();'' @ [newline]"
  have pc: "programChunks env te minify mainPkgPath pkgs all =
      [?open, ?prelude, [newline]] @ ?pk @ ?tb @ map ?init pkgs @ [?entry]"
    by (simp add: programChunks_def)
  from complete have c1: "\<forall>c \<in> set [?open, ?prelude, [newline]]. cookiesComplete c"
    and c2: "\<forall>c \<in> set ?pk. cookiesComplete c"
    and c3: "\<forall>c \<in> set ?tb. cookiesComplete c"
    and c4: "\<forall>c \<in> set (map ?init pkgs). cookiesComplete c"
    and c5: "\<forall>c \<in> set [?entry]. cookiesComplete c"
    unfolding pc by auto
  have col: "collectTypeNames te typesPackages m pkgs = Inr all"
    unfolding all by (rule collectTypeNames_candidates [OF reg])
  have tabs: "forEach (writeInterface env te mapOrder bufferWrite minify all) all =
      forEach (\<lambda>c w. emit bufferWrite w c) ?tb"
    by (rule ext) (rule forEach_writeInterface [OF wf ord subset_refl])
  have inits: "forEach (\<lambda>pkg w. emit bufferWrite w (?init pkg)) pkgs =
      forEach (\<lambda>c w. emit bufferWrite w c) (map ?init pkgs)"
    by (rule ext) (simp add: forEach_map)
  let ?step = "\<lambda>w. bnd (forEach (\<lambda>c w. emit bufferWrite w c) [?open, ?prelude, [newline]] w) (\<lambda>w.
               bnd (forEach (\<lambda>pkg w. WritePkgCode env bufferWrite pkg minify w) pkgs w) (\<lambda>w.
               bnd (forEach (\<lambda>c w. emit bufferWrite w c) ?tb w) (\<lambda>w.
               bnd (forEach (\<lambda>c w. emit bufferWrite w c) (map ?init pkgs) w)
                   (forEach (\<lambda>c w. emit bufferWrite w c) [?entry]))))"
  have e: "emitsTo ?cb ?step
      (concat (map stripCookies [?open, ?prelude, [newline]]) @
       concat (map stripCookies ?pk) @
       concat (map stripCookies ?tb) @
       concat (map stripCookies (map ?init pkgs)) @
       concat (map stripCookies [?entry]))"
    by (intro emitsTo_bnd emitsTo_chunks emitsTo_packages c1 c2 c3 c4 c5 load)
  from emitsTo_D [OF e refl] obtain w' where
    w': "?step w = Inr w'"
    "Writer w' = Writer w @
      (concat (map stripCookies [?open, ?prelude, [newline]]) @
       concat (map stripCookies ?pk) @
       concat (map stripCookies ?tb) @
       concat (map stripCookies (map ?init pkgs)) @
       concat (map stripCookies [?entry]))"
    by blast
  have run: "WriteProgramCode env te typesPackages mapOrder bufferWrite pkgs0 mainPkgPath minify w
      = bnd (?step w) (\<lambda>w. Inr (pkgs, w))"
    unfolding WriteProgramCode_def dce bnd_Inr prod.case col tabs inits
    by (simp add: bnd_assoc forEach_Cons_fun forEach_Nil_fun)
  from w' have "Writer w' = Writer w @
      concat (map stripCookies (programChunks env te minify mainPkgPath pkgs all))"
    unfolding pc by simp
  with run w'(1) show ?thesis by simp
qed




section \<open>Properties of determinism\<close>

lemma implementedByList_mapOrder:
  assumes "isMapOrder mo1" and "isMapOrder mo2"
  shows "implementedByList te mo1 in' all = implementedByList te mo2 in' all"
proof -
  have "sort (mo1 keys) = sort (mo2 keys)" for keys :: "string list"
  proof -
    from assms have "mset (mo1 keys) = mset (mo2 keys)" by (simp add: isMapOrder_def)
    then show ?thesis by (intro properties_for_sort) simp_all
  qed
  then show ?thesis by (simp add: implementedByList_def)
qed

lemma writeInterface_mapOrder:
  assumes "isMapOrder mo1" and "isMapOrder mo2"
  shows "writeInterface env te mo1 wr minify all = writeInterface env te mo2 wr minify all"
  by (intro ext) (unfold writeInterface_def implementedByList_mapOrder [OF assms], rule refl)

lemma WriteProgramCode_mapOrder:
  assumes "isMapOrder mo1" and "isMapOrder mo2"
  shows "WriteProgramCode env te reg mo1 wr pkgs mainPkgPath minify w =
         WriteProgramCode env te reg mo2 wr pkgs mainPkgPath minify w"
  unfolding WriteProgramCode_def writeInterface_mapOrder [OF assms] ..

lemma sameRelation_sym: "sameRelation pkgs pkgs' \<Longrightarrow> sameRelation pkgs' pkgs"
  by (auto simp: sameRelation_def)

lemma sameRelation_facts:
  assumes "sameRelation pkgs pkgs'"
  shows "validRef pkgs r = validRef pkgs' r"
    and "validRef pkgs r \<Longrightarrow> set (filtersOf pkgs r) = set (filtersOf pkgs' r)"
    and "validRef pkgs r \<Longrightarrow> set (depsOf pkgs r) = set (depsOf pkgs' r)"
    and "validRef pkgs r \<Longrightarrow> objectId pkgs r f = objectId pkgs' r f"
  using assms
  by (auto simp: sameRelation_def validRef_def filtersOf_def depsOf_def objectId_def getDecl_def)

lemma sameRelation_live:
  assumes s: "sameRelation pkgs pkgs'"
  shows "live pkgs r \<Longrightarrow> live pkgs' r"
proof (induction rule: live.induct)
  case (liveI r)
  note f = sameRelation_facts [OF s]
  from liveI(1) have v: "validRef pkgs' r" by (simp add: f(1))
  show ?case
  proof (rule live.liveI [OF v], rule ballI)
    fix g assume "g \<in> set (filtersOf pkgs' r)"
    with liveI(1) have "g \<in> set (filtersOf pkgs r)" by (simp add: f(2))
    with liveI(2) obtain r' where r': "live pkgs r'" "live pkgs' r'"
      "objectId pkgs r g \<in> set (depsOf pkgs r')"
      by blast
    from r'(1) have "validRef pkgs r'" by cases
    with r'(3) liveI(1) have "objectId pkgs' r g \<in> set (depsOf pkgs' r')"
      using f(3) [of r'] f(4) [of r g] by simp
    with r'(2) show "\<exists>r'. live pkgs' r' \<and> objectId pkgs' r g \<in> set (depsOf pkgs' r')"
      by blast
  qed
qed

lemma DCE_sameRelation:
  assumes "noColon pkgs" and "noColon pkgs'" and s: "sameRelation pkgs pkgs'"
  shows "\<exists>m S m' S'. DCE pkgs = Inr (m, S) \<and> DCE pkgs' = Inr (m', S') \<and>
           (\<forall>r. validRef pkgs r \<longrightarrow> (filtersOf S r = [] \<longleftrightarrow> filtersOf S' r = []))"
proof -
  from DCE_correct [OF assms(1)] obtain m S where
    a: "DCE pkgs = Inr (m, S)" "\<And>r. validRef pkgs r \<Longrightarrow> (filtersOf S r = [] \<longleftrightarrow> live pkgs r)"
    by blast
  from DCE_correct [OF assms(2)] obtain m' S' where
    b: "DCE pkgs' = Inr (m', S')" "\<And>r. validRef pkgs' r \<Longrightarrow> (filtersOf S' r = [] \<longleftrightarrow> live pkgs' r)"
    by blast
  have "filtersOf S r = [] \<longleftrightarrow> filtersOf S' r = []" if v: "validRef pkgs r" for r
  proof -
    from v have v': "validRef pkgs' r" by (simp add: sameRelation_facts(1) [OF s])
    from sameRelation_live [OF s, of r] sameRelation_live [OF sameRelation_sym [OF s], of r]
    have "live pkgs r \<longleftrightarrow> live pkgs' r" by blast
    with a(2) [OF v] b(2) [OF v'] show ?thesis by simp
  qed
  with a(1) b(1) show ?thesis by blast
qed

text \<open>
  C8. The only choice a run makes that the input does not fix is the order in which Go
  enumerates the keys of the \<open>implementedBy\<close> map, and the list is sorted afterwards: for any
  two enumeration orders, any writer and any input, \<open>WriteProgramCode\<close> gives the same
  result (the same panic, or the same filters left on the declarations and the same calls
  of the writer and of the mapping callback), byte for byte, tables included. And the declarations that the DCE phase leaves
  without a filter depend on the filters and the dependencies only as sets: two inputs
  (without colons in import paths and filter names) that agree on them, whatever the order
  or multiplicity inside the lists, have the same declarations live.
\<close>

theorem WriteProgramCode_deterministic:
  assumes "isMapOrder mo1" and "isMapOrder mo2"
  shows "WriteProgramCode env te reg mo1 wr pkgs0 mainPkgPath minify w =
         WriteProgramCode env te reg mo2 wr pkgs0 mainPkgPath minify w \<and>
         (noColon pkgs \<and> noColon pkgs' \<and> sameRelation pkgs pkgs' \<longrightarrow>
            (\<exists>m S m' S'. DCE pkgs = Inr (m, S) \<and> DCE pkgs' = Inr (m', S') \<and>
               (\<forall>r. validRef pkgs r \<longrightarrow> (filtersOf S r = [] \<longleftrightarrow> filtersOf S' r = []))))"
  using WriteProgramCode_mapOrder [OF assms] DCE_sameRelation by blast

theorem WriteProgramCode_deterministic_witness:
  "isMapOrder (\<lambda>keys. keys) \<and> isMapOrder rev \<and>
   WriteProgramCode plainEnv sampleTypes [''p'' \<mapsto> sampleScope] (\<lambda>keys. keys) bufferWrite
     [pkgExample] ''p'' False plainFilter =
   WriteProgramCode plainEnv sampleTypes [''p'' \<mapsto> sampleScope] rev bufferWrite
     [pkgExample] ''p'' False plainFilter \<and>
   noColon dceExample \<and> noColon dceExampleReordered \<and> sameRelation dceExample dceExampleReordered \<and>
   (\<exists>m S m' S'. DCE dceExample = Inr (m, S) \<and> DCE dceExampleReordered = Inr (m', S') \<and>
      (filtersOf S (0, 2) = [] \<longleftrightarrow> filtersOf S' (0, 2) = []) \<and>
      (filtersOf S (0, 3) = [] \<longleftrightarrow> filtersOf S' (0, 3) = []))"
proof -
  have o: "isMapOrder (\<lambda>keys. keys)" "isMapOrder rev"
    by (simp_all add: isMapOrder_def)
  have nc: "noColon dceExample" "noColon dceExampleReordered"
    by (simp_all add: noColon_def dceExample_def dceExampleReordered_def archiveWith_def declWith_def)
  have s: "sameRelation dceExample dceExampleReordered"
    by (auto simp: sameRelation_def dceExample_def dceExampleReordered_def archiveWith_def
        declWith_def less_Suc_eq nth_Cons')
  have v: "validRef dceExample (0, 2)" "validRef dceExample (0, 3)"
    by (simp_all add: validRef_def dceExample_def archiveWith_def)
  note t = WriteProgramCode_deterministic [OF o, of plainEnv sampleTypes "[''p'' \<mapsto> sampleScope]"
      bufferWrite "[pkgExample]" "''p''" False plainFilter dceExample dceExampleReordered]
  from t nc s obtain m S m' S' where
    "DCE dceExample = Inr (m, S)" "DCE dceExampleReordered = Inr (m', S')"
    "\<And>r. validRef dceExample r \<Longrightarrow> (filtersOf S r = [] \<longleftrightarrow> filtersOf S' r = [])"
    by blast
  with v have "\<exists>m S m' S'. DCE dceExample = Inr (m, S) \<and> DCE dceExampleReordered = Inr (m', S') \<and>
      (filtersOf S (0, 2) = [] \<longleftrightarrow> filtersOf S' (0, 2) = []) \<and>
      (filtersOf S (0, 3) = [] \<longleftrightarrow> filtersOf S' (0, 3) = [])"
    by blast
  with t o nc s show ?thesis by blast
qed

section \<open>Properties of UnmarshalArchive\<close>



end
